theory Spec2Isabelle
  imports Main
begin

section \<open>Python values, exceptions and the object store\<close>

text \<open>
  The notebooks \<^verbatim>\<open>part-1.ipynb\<close> and \<^verbatim>\<open>part-3.ipynb\<close> define small classes that follow
  Python's iteration protocol. Objects are mutable and are shared by reference (an iterator
  keeps a reference to the collection it walks, and \<^verbatim>\<open>__iter__\<close> of an iterator returns the
  very same object), so objects live in a store and are named by their address. The
  \<^verbatim>\<open>print\<close> calls of the traced classes append a line to the standard output, which is
  part of the state.

  Python integers are unbounded: \<^typ>\<open>int\<close>. An exception is a value of \<open>pyerr\<close>; a call
  returns \<open>Inl\<close> of the exception it raises or \<open>Inr\<close> of its result, together with the
  state it leaves behind.
\<close>

datatype pyerr = StopIteration | IndexError | TypeError | AttributeError

datatype pyval = IntV int | StrV string

type_synonym addr = nat

text \<open>
  One constructor for each class, holding the instance attributes in the order the
  \<^verbatim>\<open>__init__\<close> assigns them. The notebooks define the names \<^verbatim>\<open>Squares\<close> and
  \<^verbatim>\<open>Cities\<close> several times; the classes modelled are
  \<^item> \<open>Squares0\<close>: the first \<^verbatim>\<open>Squares\<close> of part-1 (lines 103-110), attribute \<^verbatim>\<open>i\<close>, with
    the method \<^verbatim>\<open>next_\<close> and no length;
  \<^item> \<open>Squares\<close>: the iterator \<^verbatim>\<open>Squares\<close> of part-1 (lines 909-923), attributes
    \<^verbatim>\<open>length\<close> and \<^verbatim>\<open>i\<close>; its \<^verbatim>\<open>__next__\<close> is the one of lines 495-501 too;
  \<^item> \<open>Cities0\<close>: the first \<^verbatim>\<open>Cities\<close> of part-3 (lines 63-77), which is its own iterator,
    attributes \<^verbatim>\<open>_cities\<close> and \<^verbatim>\<open>_index\<close>;
  \<^item> \<open>Cities\<close>: the last \<^verbatim>\<open>Cities\<close> of part-3 (lines 862-875), attribute \<^verbatim>\<open>_cities\<close>; the
    earlier definitions (lines 177-182, 468-477, 649-658) have the same \<^verbatim>\<open>__len__\<close> and
    \<^verbatim>\<open>__iter__\<close> and lack \<^verbatim>\<open>__getitem__\<close>;
  \<^item> \<open>CityIterator\<close>: the first \<^verbatim>\<open>CityIterator\<close> of part-3 (lines 198-213), attributes
    \<^verbatim>\<open>_city_obj\<close> and \<^verbatim>\<open>_index\<close>;
  \<^item> \<open>Cities_CityIterator\<close>: the class \<^verbatim>\<open>Cities.CityIterator\<close> nested in \<^verbatim>\<open>Cities\<close>
    (lines 877-895, also 441-459 and 660-678), which prints a line in every method.

  Two classes of part-1 are left out: \<^verbatim>\<open>RandomNumbers\<close> (lines 695-710), whose values come
  from the random number generator, and the last \<^verbatim>\<open>Squares\<close> (lines 1357-1373), which is
  the iterator \<^verbatim>\<open>Squares\<close> with a line of trace in each method.
\<close>

datatype pyobj =
    Squares0 int
  | Squares int int
  | Cities0 "string list" int
  | Cities "string list"
  | CityIterator addr int
  | Cities_CityIterator addr int

record state =
  heap :: "pyobj list"
  stdout :: "string list"

definition heap_get :: "state \<Rightarrow> addr \<Rightarrow> pyobj option" where
  "heap_get s a = (if a < length (heap s) then Some (heap s ! a) else None)"

definition heap_set :: "addr \<Rightarrow> pyobj \<Rightarrow> state \<Rightarrow> state" where
  "heap_set a ob s = s\<lparr>heap := (heap s)[a := ob]\<rparr>"

text \<open>Creating an object: it gets the next unused address.\<close>

definition alloc :: "pyobj \<Rightarrow> state \<Rightarrow> addr \<times> state" where
  "alloc ob s = (length (heap s), s\<lparr>heap := heap s @ [ob]\<rparr>)"

definition print :: "string \<Rightarrow> state \<Rightarrow> state" where
  "print line s = s\<lparr>stdout := stdout s @ [line]\<rparr>"

text \<open>
  \<^verbatim>\<open>xs[k]\<close> on a Python list: an index from \<open>-len\<close> up to \<open>-1\<close> counts from the end, and
  an index outside \<open>-len .. len - 1\<close> raises \<^verbatim>\<open>IndexError\<close>.
\<close>

definition list_getitem :: "'a list \<Rightarrow> int \<Rightarrow> pyerr + 'a" where
  "list_getitem xs k =
     (let n = int (length xs) in
      if 0 \<le> k \<and> k < n then Inr (xs ! nat k)
      else if - n \<le> k \<and> k < 0 then Inr (xs ! nat (k + n))
      else Inl IndexError)"

section \<open>part-1: the unbounded Squares (lines 103-110)\<close>

text \<open>
  \<^verbatim>\<open>
    class Squares:
        def __init__(self):
            self.i = 0

        def next_(self):
            result = self.i ** 2
            self.i += 1
            return result
  \<close>
\<close>

definition Squares0_init :: "state \<Rightarrow> addr \<times> state" where
  "Squares0_init s = alloc (Squares0 0) s"

text \<open>The method \<^verbatim>\<open>next_\<close> (a name cannot end with an underscore here).\<close>

definition Squares0_next :: "addr \<Rightarrow> state \<Rightarrow> (pyerr + pyval) \<times> state" where
  "Squares0_next self s =
     (case heap_get s self of
        Some (Squares0 i) \<Rightarrow>
          (let result = i ^ 2;
               s1 = heap_set self (Squares0 (i + 1)) s
           in (Inr (IntV result), s1))
      | _ \<Rightarrow> (Inl AttributeError, s))"

text \<open>
  Calling a method \<open>n\<close> times in a row on the same object, as the cells of the notebooks do
  (\<^verbatim>\<open>for i in range(10): print(sq.next_())\<close>, part-1 lines 206-207): the outcomes of the
  calls in order, and the final state. A call that raises does not stop the later calls:
  each call of the notebook is a statement of its own.
\<close>

fun call_n :: "(addr \<Rightarrow> state \<Rightarrow> (pyerr + pyval) \<times> state) \<Rightarrow> nat \<Rightarrow> addr \<Rightarrow> state
    \<Rightarrow> (pyerr + pyval) list \<times> state" where
  "call_n m 0 a s = ([], s)"
| "call_n m (Suc n) a s =
     (case m a s of (r, s1) \<Rightarrow>
        (case call_n m n a s1 of (rs, s2) \<Rightarrow> (r # rs, s2)))"

section \<open>part-1: the iterator Squares (lines 909-923)\<close>

text \<open>
  \<^verbatim>\<open>
    class Squares:
        def __init__(self, length):
            self.length = length
            self.i = 0

        def __iter__(self):
            return self

        def __next__(self):
            if self.i >= self.length:
                raise StopIteration
            else:
                result = self.i ** 2
                self.i += 1
                return result
  \<close>
\<close>

definition Squares_init :: "int \<Rightarrow> state \<Rightarrow> addr \<times> state" where
  "Squares_init len s = alloc (Squares len 0) s"

definition Squares_iter :: "addr \<Rightarrow> state \<Rightarrow> (pyerr + addr) \<times> state" where
  "Squares_iter self s = (Inr self, s)"

definition Squares_next :: "addr \<Rightarrow> state \<Rightarrow> (pyerr + pyval) \<times> state" where
  "Squares_next self s =
     (case heap_get s self of
        Some (Squares len i) \<Rightarrow>
          if i \<ge> len then (Inl StopIteration, s)
          else
            (let result = i ^ 2;
                 s1 = heap_set self (Squares len (i + 1)) s
             in (Inr (IntV result), s1))
      | _ \<Rightarrow> (Inl AttributeError, s))"

section \<open>part-3: Cities as its own iterator (lines 63-77)\<close>

text \<open>
  \<^verbatim>\<open>
    class Cities:
        def __init__(self):
            self._cities = ['Paris', 'Berlin', 'Rome', 'Madrid', 'London']
            self._index = 0

        def __iter__(self):
            return self

        def __next__(self):
            if self._index >= len(self._cities):
                raise StopIteration
            else:
                item = self._cities[self._index]
                self._index += 1
                return item
  \<close>
\<close>

definition Cities0_init :: "state \<Rightarrow> addr \<times> state" where
  "Cities0_init s =
     alloc (Cities0 [''Paris'', ''Berlin'', ''Rome'', ''Madrid'', ''London''] 0) s"

definition Cities0_iter :: "addr \<Rightarrow> state \<Rightarrow> (pyerr + addr) \<times> state" where
  "Cities0_iter self s = (Inr self, s)"

definition Cities0_next :: "addr \<Rightarrow> state \<Rightarrow> (pyerr + pyval) \<times> state" where
  "Cities0_next self s =
     (case heap_get s self of
        Some (Cities0 cs index) \<Rightarrow>
          if index \<ge> int (length cs) then (Inl StopIteration, s)
          else
            (case list_getitem cs index of
               Inl e \<Rightarrow> (Inl e, s)
             | Inr item \<Rightarrow> (Inr (StrV item), heap_set self (Cities0 cs (index + 1)) s))
      | _ \<Rightarrow> (Inl AttributeError, s))"

section \<open>part-3: the collection Cities (lines 862-875)\<close>

text \<open>
  \<^verbatim>\<open>
    class Cities:
        def __init__(self):
            self._cities = ['New York', 'Newark', 'New Delhi', 'Newcastle']

        def __len__(self):
            return len(self._cities)

        def __getitem__(self, s):
            print('getting item...')
            return self._cities[s]

        def __iter__(self):
            print('Calling Cities instance __iter__')
            return self.CityIterator(self)
  \<close>
  The argument of \<^verbatim>\<open>__getitem__\<close> is modelled for integer positions, not for slices.
  \<^verbatim>\<open>__len__\<close> only reads the state.
\<close>

definition Cities_init :: "state \<Rightarrow> addr \<times> state" where
  "Cities_init s = alloc (Cities [''New York'', ''Newark'', ''New Delhi'', ''Newcastle'']) s"

definition Cities_len :: "addr \<Rightarrow> state \<Rightarrow> pyerr + int" where
  "Cities_len self s =
     (case heap_get s self of
        Some (Cities cs) \<Rightarrow> Inr (int (length cs))
      | _ \<Rightarrow> Inl AttributeError)"

definition Cities_getitem :: "addr \<Rightarrow> int \<Rightarrow> state \<Rightarrow> (pyerr + pyval) \<times> state" where
  "Cities_getitem self k s =
     (let s1 = print ''getting item...'' s in
      case heap_get s1 self of
        Some (Cities cs) \<Rightarrow>
          (case list_getitem cs k of
             Inl e \<Rightarrow> (Inl e, s1)
           | Inr item \<Rightarrow> (Inr (StrV item), s1))
      | _ \<Rightarrow> (Inl AttributeError, s1))"

text \<open>
  The nested class \<^verbatim>\<open>Cities.CityIterator\<close> (lines 877-895):
  \<^verbatim>\<open>
        class CityIterator:
            def __init__(self, city_obj):
                # cities is an instance of Cities
                print('Calling CityIterator __init__')
                self._city_obj = city_obj
                self._index = 0

            def __iter__(self):
                print('Calling CitiyIterator instance __iter__')
                return self

            def __next__(self):
                print('Calling __next__')
                if self._index >= len(self._city_obj):
                    raise StopIteration
                else:
                    item = self._city_obj._cities[self._index]
                    self._index += 1
                    return item
  \<close>
  \<^verbatim>\<open>len(x)\<close> calls the \<^verbatim>\<open>__len__\<close> of the class of \<^verbatim>\<open>x\<close> and raises \<^verbatim>\<open>TypeError\<close> when
  the class has none; of the classes here only \<^verbatim>\<open>Cities\<close> has one. Reading the attribute
  \<^verbatim>\<open>_cities\<close> raises \<^verbatim>\<open>AttributeError\<close> on an object that has none.
\<close>

definition py_len :: "addr \<Rightarrow> state \<Rightarrow> pyerr + int" where
  "py_len a s =
     (case heap_get s a of
        Some (Cities cs) \<Rightarrow> Cities_len a s
      | _ \<Rightarrow> Inl TypeError)"

definition attr_cities :: "addr \<Rightarrow> state \<Rightarrow> pyerr + string list" where
  "attr_cities a s =
     (case heap_get s a of
        Some (Cities cs) \<Rightarrow> Inr cs
      | Some (Cities0 cs index) \<Rightarrow> Inr cs
      | _ \<Rightarrow> Inl AttributeError)"

definition Cities_CityIterator_init :: "addr \<Rightarrow> state \<Rightarrow> addr \<times> state" where
  "Cities_CityIterator_init city_obj s =
     (let s1 = print ''Calling CityIterator __init__'' s
      in alloc (Cities_CityIterator city_obj 0) s1)"

definition Cities_CityIterator_iter :: "addr \<Rightarrow> state \<Rightarrow> (pyerr + addr) \<times> state" where
  "Cities_CityIterator_iter self s =
     (let s1 = print ''Calling CitiyIterator instance __iter__'' s
      in (Inr self, s1))"

definition Cities_CityIterator_next :: "addr \<Rightarrow> state \<Rightarrow> (pyerr + pyval) \<times> state" where
  "Cities_CityIterator_next self s =
     (let s1 = print ''Calling __next__'' s in
      case heap_get s1 self of
        Some (Cities_CityIterator city_obj index) \<Rightarrow>
          (case py_len city_obj s1 of
             Inl e \<Rightarrow> (Inl e, s1)
           | Inr n \<Rightarrow>
               if index \<ge> n then (Inl StopIteration, s1)
               else
                 (case attr_cities city_obj s1 of
                    Inl e \<Rightarrow> (Inl e, s1)
                  | Inr cs \<Rightarrow>
                      (case list_getitem cs index of
                         Inl e \<Rightarrow> (Inl e, s1)
                       | Inr item \<Rightarrow>
                           (Inr (StrV item),
                            heap_set self (Cities_CityIterator city_obj (index + 1)) s1))))
      | _ \<Rightarrow> (Inl AttributeError, s1))"

text \<open>
  \<^verbatim>\<open>self.CityIterator(self)\<close>: the class is found through the instance of \<^verbatim>\<open>Cities\<close>,
  then an instance of it is created and initialised.
\<close>

definition Cities_iter :: "addr \<Rightarrow> state \<Rightarrow> (pyerr + addr) \<times> state" where
  "Cities_iter self s =
     (let s1 = print ''Calling Cities instance __iter__'' s in
      case heap_get s1 self of
        Some (Cities cs) \<Rightarrow>
          (case Cities_CityIterator_init self s1 of (it, s2) \<Rightarrow> (Inr it, s2))
      | _ \<Rightarrow> (Inl AttributeError, s1))"

section \<open>part-3: the first CityIterator (lines 198-213)\<close>

text \<open>
  \<^verbatim>\<open>
    class CityIterator:
        def __init__(self, city_obj):
            # cities is an instance of Cities
            self._city_obj = city_obj
            self._index = 0

        def __iter__(self):
            return self

        def __next__(self):
            if self._index >= len(self._city_obj):
                raise StopIteration
            else:
                item = self._city_obj._cities[self._index]
                self._index += 1
                return item
  \<close>
\<close>

definition CityIterator_init :: "addr \<Rightarrow> state \<Rightarrow> addr \<times> state" where
  "CityIterator_init city_obj s = alloc (CityIterator city_obj 0) s"

definition CityIterator_iter :: "addr \<Rightarrow> state \<Rightarrow> (pyerr + addr) \<times> state" where
  "CityIterator_iter self s = (Inr self, s)"

definition CityIterator_next :: "addr \<Rightarrow> state \<Rightarrow> (pyerr + pyval) \<times> state" where
  "CityIterator_next self s =
     (case heap_get s self of
        Some (CityIterator city_obj index) \<Rightarrow>
          (case py_len city_obj s of
             Inl e \<Rightarrow> (Inl e, s)
           | Inr n \<Rightarrow>
               if index \<ge> n then (Inl StopIteration, s)
               else
                 (case attr_cities city_obj s of
                    Inl e \<Rightarrow> (Inl e, s)
                  | Inr cs \<Rightarrow>
                      (case list_getitem cs index of
                         Inl e \<Rightarrow> (Inl e, s)
                       | Inr item \<Rightarrow>
                           (Inr (StrV item),
                            heap_set self (CityIterator city_obj (index + 1)) s))))
      | _ \<Rightarrow> (Inl AttributeError, s))"

section \<open>The built-in functions iter and next, and the loop over an iterator\<close>

text \<open>
  \<^verbatim>\<open>next(x)\<close> calls the \<^verbatim>\<open>__next__\<close> of the class of \<^verbatim>\<open>x\<close>, and \<^verbatim>\<open>iter(x)\<close> its
  \<^verbatim>\<open>__iter__\<close> (part-1, lines 480 and 1075); on an object whose class has no such method
  they raise \<^verbatim>\<open>TypeError\<close> (part-1 lines 452-464, part-3 lines 305-312). Every class
  modelled that has \<^verbatim>\<open>__getitem__\<close> has \<^verbatim>\<open>__iter__\<close> too, and \<^verbatim>\<open>iter\<close> uses
  \<^verbatim>\<open>__iter__\<close> when there is one (part-3 lines 990-1018). An address that holds no
  object cannot be reached in Python; it is treated like an object without the method.
\<close>

definition py_next :: "addr \<Rightarrow> state \<Rightarrow> (pyerr + pyval) \<times> state" where
  "py_next a s =
     (case heap_get s a of
        Some (Squares len i) \<Rightarrow> Squares_next a s
      | Some (Cities0 cs index) \<Rightarrow> Cities0_next a s
      | Some (CityIterator city_obj index) \<Rightarrow> CityIterator_next a s
      | Some (Cities_CityIterator city_obj index) \<Rightarrow> Cities_CityIterator_next a s
      | _ \<Rightarrow> (Inl TypeError, s))"

definition py_iter :: "addr \<Rightarrow> state \<Rightarrow> (pyerr + addr) \<times> state" where
  "py_iter a s =
     (case heap_get s a of
        Some (Squares len i) \<Rightarrow> Squares_iter a s
      | Some (Cities0 cs index) \<Rightarrow> Cities0_iter a s
      | Some (Cities cs) \<Rightarrow> Cities_iter a s
      | Some (CityIterator city_obj index) \<Rightarrow> CityIterator_iter a s
      | Some (Cities_CityIterator city_obj index) \<Rightarrow> Cities_CityIterator_iter a s
      | _ \<Rightarrow> (Inl TypeError, s))"

text \<open>
  The number of values an iterator has still to give: the measure that makes the loop
  below end.
\<close>

definition remaining :: "addr \<Rightarrow> state \<Rightarrow> nat" where
  "remaining it s =
     (case heap_get s it of
        Some (Squares len i) \<Rightarrow> nat (len - i)
      | Some (Cities0 cs index) \<Rightarrow> nat (int (length cs) - index)
      | Some (CityIterator city_obj index) \<Rightarrow>
          (case py_len city_obj s of Inr n \<Rightarrow> nat (n - index) | Inl e \<Rightarrow> 0)
      | Some (Cities_CityIterator city_obj index) \<Rightarrow>
          (case py_len city_obj s of Inr n \<Rightarrow> nat (n - index) | Inl e \<Rightarrow> 0)
      | _ \<Rightarrow> 0)"

section \<open>Basic facts about the store\<close>

lemma heap_get_heap_set [simp]:
  "heap_get (heap_set a ob s) b =
     (if b = a then (case heap_get s a of None \<Rightarrow> None | Some x \<Rightarrow> Some ob)
      else heap_get s b)"
  by (simp add: heap_get_def heap_set_def)

lemma heap_get_alloc:
  "heap_get (snd (alloc ob s)) b =
     (if b = length (heap s) then Some ob else heap_get s b)"
  by (simp add: heap_get_def alloc_def nth_append)

lemma fst_alloc [simp]: "fst (alloc ob s) = length (heap s)"
  by (simp add: alloc_def)

lemma heap_get_print [simp]: "heap_get (print l s) a = heap_get s a"
  by (simp add: heap_get_def print_def)

lemma heap_get_SomeD: "heap_get s a = Some ob \<Longrightarrow> a < length (heap s) \<and> heap s ! a = ob"
  by (auto simp: heap_get_def split: if_splits)

lemma stdout_heap_set [simp]: "stdout (heap_set a ob s) = stdout s"
  by (simp add: heap_set_def)

lemma heap_heap_set [simp]: "heap (heap_set a ob s) = (heap s)[a := ob]"
  by (simp add: heap_set_def)

lemma heap_print [simp]: "heap (print l s) = heap s"
  by (simp add: print_def)

lemma stdout_print [simp]: "stdout (print l s) = stdout s @ [l]"
  by (simp add: print_def)

lemma py_len_eq:
  "py_len c s =
     (case heap_get s c of Some (Cities cs) \<Rightarrow> Inr (int (length cs)) | _ \<Rightarrow> Inl TypeError)"
  by (simp add: py_len_def Cities_len_def split: option.splits pyobj.splits)

lemma py_len_heap_set_iter:
  "heap_get s a = Some ob \<Longrightarrow> (\<forall>cs. ob \<noteq> Cities cs) \<Longrightarrow> (\<forall>cs. ob' \<noteq> Cities cs) \<Longrightarrow>
   py_len c (heap_set a ob' s) = py_len c s"
  by (auto simp: py_len_eq split: option.splits pyobj.splits)

lemma py_len_print [simp]: "py_len c (print l s) = py_len c s"
  by (simp add: py_len_eq)

lemma attr_cities_print [simp]: "attr_cities c (print l s) = attr_cities c s"
  by (simp add: attr_cities_def)

section \<open>The loop over an iterator ends\<close>

lemma Squares_next_remaining:
  "Squares_next it s = (Inr v, s1) \<Longrightarrow> remaining it s1 < remaining it s"
  by (auto simp: Squares_next_def remaining_def Let_def
           split: option.splits pyobj.splits if_splits)

lemma Cities0_next_remaining:
  "Cities0_next it s = (Inr v, s1) \<Longrightarrow> remaining it s1 < remaining it s"
  by (auto simp: Cities0_next_def remaining_def Let_def
           split: option.splits pyobj.splits if_splits sum.splits)

lemma CityIterator_next_remaining:
  "CityIterator_next it s = (Inr v, s1) \<Longrightarrow> remaining it s1 < remaining it s"
  by (auto simp: CityIterator_next_def remaining_def Let_def py_len_heap_set_iter
           split: option.splits pyobj.splits if_splits sum.splits)

lemma Cities_CityIterator_next_remaining:
  "Cities_CityIterator_next it s = (Inr v, s1) \<Longrightarrow> remaining it s1 < remaining it s"
  by (auto simp: Cities_CityIterator_next_def remaining_def Let_def py_len_heap_set_iter
           split: option.splits pyobj.splits if_splits sum.splits)

lemma py_next_remaining:
  "py_next it s = (Inr v, s1) \<Longrightarrow> remaining it s1 < remaining it s"
  by (auto simp: py_next_def Squares_next_remaining Cities0_next_remaining
        CityIterator_next_remaining Cities_CityIterator_next_remaining
      split: option.splits pyobj.splits)

text \<open>
  The loop of part-1, lines 1545-1553, which is what a \<^verbatim>\<open>for\<close> statement, a comprehension,
  \<^verbatim>\<open>enumerate\<close> and \<^verbatim>\<open>sorted\<close> do with an object:
  \<^verbatim>\<open>
    sq_iterator = iter(sq)
    while True:
        try:
            item = next(sq_iterator)
            print(item)
        except StopIteration:
            break
  \<close>
  \<open>for_items\<close> is the \<^verbatim>\<open>while\<close> loop; it returns the items in the order it gets them
  (the comprehension \<^verbatim>\<open>[item for item in sq]\<close>) where the cell prints them. An exception
  other than \<^verbatim>\<open>StopIteration\<close> leaves the loop and is raised to the caller.
\<close>

function for_items :: "addr \<Rightarrow> state \<Rightarrow> (pyerr + pyval list) \<times> state" where
  "for_items it s =
     (case py_next it s of
        (Inl e, s1) \<Rightarrow> if e = StopIteration then (Inr [], s1) else (Inl e, s1)
      | (Inr item, s1) \<Rightarrow>
          (case for_items it s1 of
             (Inl e, s2) \<Rightarrow> (Inl e, s2)
           | (Inr items, s2) \<Rightarrow> (Inr (item # items), s2)))"
  by pat_completeness auto
termination
  by (relation "measure (\<lambda>(it, s). remaining it s)") (auto intro: py_next_remaining [OF sym])

declare for_items.simps [simp del]

definition for_loop :: "addr \<Rightarrow> state \<Rightarrow> (pyerr + pyval list) \<times> state" where
  "for_loop ob s =
     (case py_iter ob s of
        (Inl e, s1) \<Rightarrow> (Inl e, s1)
      | (Inr it, s1) \<Rightarrow> for_items it s1)"

section \<open>The traversal with the fallback to positional access\<close>

text \<open>
  Modelled from the spec: the loop over \<^verbatim>\<open>at(0), at(1), \<dots>\<close> of section 4.3, step 4,
  which belongs to the interpreter and not to the notebooks. The positional accessor is
  called at the positions \<open>k\<close>, \<open>k + 1\<close>, \<dots> until it signals a bounds error, which ends
  the loop like the exhaustion signal does (section 7); another exception is raised to the
  caller. The accessor is a parameter, so the loop need not end: the result is \<open>None\<close>
  when it does not.
\<close>

partial_function (option) at_items ::
  "(int \<Rightarrow> state \<Rightarrow> (pyerr + pyval) \<times> state) \<Rightarrow> int \<Rightarrow> state
     \<Rightarrow> ((pyerr + pyval list) \<times> state) option" where
  "at_items at k s =
     (case at k s of
        (Inl e, s1) \<Rightarrow>
          if e = IndexError \<or> e = StopIteration then Some (Inr [], s1) else Some (Inl e, s1)
      | (Inr item, s1) \<Rightarrow>
          Option.bind (at_items at (k + 1) s1)
            (\<lambda>(r, s2). case r of
                 Inl e \<Rightarrow> Some (Inl e, s2)
               | Inr items \<Rightarrow> Some (Inr (item # items), s2)))"

text \<open>
  Modelled from the spec: the generic traversal algorithm of section 4.3, over the
  capabilities an object exposes (section 9), \<^verbatim>\<open>as_producer\<close> and \<^verbatim>\<open>at\<close>, each present
  or absent. With \<^verbatim>\<open>as_producer\<close> it is called once and the producer it returns is
  advanced until exhaustion (steps 1 and 2, the loop \<open>for_items\<close>); with \<^verbatim>\<open>at\<close> only,
  the traversal falls back to positions (step 4); with neither, the object is not iterable
  (part-3, line 1018).
\<close>

definition generic_traversal ::
  "(state \<Rightarrow> (pyerr + addr) \<times> state) option \<Rightarrow> (int \<Rightarrow> state \<Rightarrow> (pyerr + pyval) \<times> state) option
     \<Rightarrow> state \<Rightarrow> ((pyerr + pyval list) \<times> state) option" where
  "generic_traversal as_producer at s =
     (case as_producer of
        Some new_producer \<Rightarrow>
          (case new_producer s of
             (Inl e, s1) \<Rightarrow> Some (Inl e, s1)
           | (Inr p, s1) \<Rightarrow> Some (for_items p s1))
      | None \<Rightarrow>
          (case at of
             Some getitem \<Rightarrow> at_items getitem 0 s
           | None \<Rightarrow> Some (Inl TypeError, s)))"

section \<open>Observing an iterator\<close>

text \<open>
  The cursor of an iterator is its attribute \<^verbatim>\<open>i\<close> or \<^verbatim>\<open>_index\<close>; the classes with
  \<^verbatim>\<open>__iter__\<close> and \<^verbatim>\<open>__next__\<close> are those that have one. The bound of an iterator is the
  length its \<^verbatim>\<open>__next__\<close> compares the cursor with.
\<close>

fun cursor :: "pyobj \<Rightarrow> int option" where
  "cursor (Squares len i) = Some i"
| "cursor (Cities0 cs index) = Some index"
| "cursor (CityIterator city_obj index) = Some index"
| "cursor (Cities_CityIterator city_obj index) = Some index"
| "cursor ob = None"

fun set_cursor :: "int \<Rightarrow> pyobj \<Rightarrow> pyobj" where
  "set_cursor j (Squares len i) = Squares len j"
| "set_cursor j (Cities0 cs index) = Cities0 cs j"
| "set_cursor j (CityIterator city_obj index) = CityIterator city_obj j"
| "set_cursor j (Cities_CityIterator city_obj index) = Cities_CityIterator city_obj j"
| "set_cursor j ob = ob"

definition is_iterator :: "state \<Rightarrow> addr \<Rightarrow> bool" where
  "is_iterator s a = (case heap_get s a of Some ob \<Rightarrow> cursor ob \<noteq> None | None \<Rightarrow> False)"

definition cursor_at :: "state \<Rightarrow> addr \<Rightarrow> int option" where
  "cursor_at s a = (case heap_get s a of Some ob \<Rightarrow> cursor ob | None \<Rightarrow> None)"

definition bound_at :: "state \<Rightarrow> addr \<Rightarrow> int option" where
  "bound_at s a =
     (case heap_get s a of
        Some (Squares len i) \<Rightarrow> Some len
      | Some (Cities0 cs index) \<Rightarrow> Some (int (length cs))
      | Some (CityIterator city_obj index) \<Rightarrow>
          (case py_len city_obj s of Inr n \<Rightarrow> Some n | Inl e \<Rightarrow> None)
      | Some (Cities_CityIterator city_obj index) \<Rightarrow>
          (case py_len city_obj s of Inr n \<Rightarrow> Some n | Inl e \<Rightarrow> None)
      | _ \<Rightarrow> None)"

text \<open>The collection stored at an address, if there is one.\<close>

definition container_at :: "state \<Rightarrow> addr \<Rightarrow> string list option" where
  "container_at s c = (case heap_get s c of Some (Cities cs) \<Rightarrow> Some cs | _ \<Rightarrow> None)"

text \<open>The objects whose \<^verbatim>\<open>__next__\<close> and \<^verbatim>\<open>__iter__\<close> print a line of trace.\<close>

definition traced :: "state \<Rightarrow> addr \<Rightarrow> bool" where
  "traced s a = (case heap_get s a of Some (Cities_CityIterator c i) \<Rightarrow> True | _ \<Rightarrow> False)"

text \<open>
  An iterator over the collection at \<open>c\<close>, of either \<^verbatim>\<open>CityIterator\<close> class, with its
  cursor at \<open>i\<close>.
\<close>

definition city_iterator_at :: "state \<Rightarrow> addr \<Rightarrow> addr \<Rightarrow> int \<Rightarrow> bool" where
  "city_iterator_at s p c i =
     (heap_get s p = Some (CityIterator c i) \<or> heap_get s p = Some (Cities_CityIterator c i))"

text \<open>
  The operations there are on an iterator: \<^verbatim>\<open>next\<close> and \<^verbatim>\<open>iter\<close>. \<open>apply_ops\<close> runs a
  sequence of them on the iterator at an address, whatever their outcomes.
\<close>

datatype producer_op = Advance | AsProducer

fun apply_op :: "producer_op \<Rightarrow> addr \<Rightarrow> state \<Rightarrow> state" where
  "apply_op Advance a s = snd (py_next a s)"
| "apply_op AsProducer a s = snd (py_iter a s)"

fun apply_ops :: "producer_op list \<Rightarrow> addr \<Rightarrow> state \<Rightarrow> state" where
  "apply_ops [] a s = s"
| "apply_ops (x # xs) a s = apply_ops xs a (apply_op x a s)"

section \<open>What a call of next does to the state\<close>

lemma py_next_stdout:
  "stdout (snd (py_next a s)) = (if traced s a then stdout s @ [''Calling __next__''] else stdout s)"
  by (auto simp: py_next_def traced_def Squares_next_def Cities0_next_def CityIterator_next_def
        Cities_CityIterator_next_def Let_def
      split: option.splits pyobj.splits sum.splits)

lemma py_next_heap:
  "heap (snd (py_next a s)) =
     (case fst (py_next a s) of
        Inl e \<Rightarrow> heap s
      | Inr v \<Rightarrow> (heap s)[a := set_cursor (the (cursor (heap s ! a)) + 1) (heap s ! a)])"
  by (auto simp: py_next_def Squares_next_def Cities0_next_def CityIterator_next_def
        Cities_CityIterator_next_def Let_def dest!: heap_get_SomeD
      split: option.splits pyobj.splits sum.splits)

lemma py_next_Inr_iterator:
  "fst (py_next a s) = Inr v \<Longrightarrow> is_iterator s a"
  by (auto simp: py_next_def is_iterator_def Squares0_next_def
      split: option.splits pyobj.splits sum.splits)

lemma py_len_container:
  "py_len c s = (case container_at s c of Some cs \<Rightarrow> Inr (int (length cs)) | None \<Rightarrow> Inl TypeError)"
  by (simp add: py_len_eq container_at_def split: option.splits pyobj.splits)

lemma attr_cities_container:
  "container_at s c = Some cs \<Longrightarrow> attr_cities c s = Inr cs"
  by (simp add: attr_cities_def container_at_def split: option.splits pyobj.splits)

lemma Squares_next_eq:
  "heap_get s a = Some (Squares len i) \<Longrightarrow>
   Squares_next a s =
     (if i \<ge> len then (Inl StopIteration, s)
      else (Inr (IntV (i ^ 2)), heap_set a (Squares len (i + 1)) s))"
  by (simp add: Squares_next_def Let_def)

lemma Cities0_next_eq:
  "heap_get s a = Some (Cities0 cs i) \<Longrightarrow>
   Cities0_next a s =
     (if i \<ge> int (length cs) then (Inl StopIteration, s)
      else (case list_getitem cs i of
              Inl e \<Rightarrow> (Inl e, s)
            | Inr item \<Rightarrow> (Inr (StrV item), heap_set a (Cities0 cs (i + 1)) s)))"
  by (simp add: Cities0_next_def)

lemma CityIterator_next_eq:
  "heap_get s a = Some (CityIterator c i) \<Longrightarrow>
   CityIterator_next a s =
     (case container_at s c of
        None \<Rightarrow> (Inl TypeError, s)
      | Some cs \<Rightarrow>
          if i \<ge> int (length cs) then (Inl StopIteration, s)
          else (case list_getitem cs i of
                  Inl e \<Rightarrow> (Inl e, s)
                | Inr item \<Rightarrow> (Inr (StrV item), heap_set a (CityIterator c (i + 1)) s)))"
  by (simp add: CityIterator_next_def py_len_container attr_cities_container
           split: option.splits)

lemma container_at_print [simp]: "container_at (print l s) c = container_at s c"
  by (simp add: container_at_def)

lemma Cities_CityIterator_next_eq:
  "heap_get s a = Some (Cities_CityIterator c i) \<Longrightarrow>
   Cities_CityIterator_next a s =
     (let s1 = print ''Calling __next__'' s in
      case container_at s c of
        None \<Rightarrow> (Inl TypeError, s1)
      | Some cs \<Rightarrow>
          if i \<ge> int (length cs) then (Inl StopIteration, s1)
          else (case list_getitem cs i of
                  Inl e \<Rightarrow> (Inl e, s1)
                | Inr item \<Rightarrow>
                    (Inr (StrV item), heap_set a (Cities_CityIterator c (i + 1)) s1)))"
  by (simp add: Cities_CityIterator_next_def py_len_container attr_cities_container Let_def
           split: option.splits)

lemma py_next_local:
  assumes "heap_get s1 p = heap_get s p" and "\<And>c. container_at s1 c = container_at s c"
  shows "fst (py_next p s1) = fst (py_next p s)"
proof (cases "heap_get s p")
  case None
  with assms show ?thesis by (simp add: py_next_def)
next
  case (Some ob)
  with assms have "heap_get s1 p = Some ob" by simp
  with Some assms(2) show ?thesis
    by (cases ob)
       (simp_all add: py_next_def Squares_next_eq Cities0_next_eq CityIterator_next_eq
          Cities_CityIterator_next_eq Let_def split: option.splits sum.splits)
qed

lemma py_next_frame:
  "b \<noteq> a \<Longrightarrow> heap_get (snd (py_next a s)) b = heap_get s b"
  by (simp add: heap_get_def py_next_heap split: sum.splits)

lemma py_next_length: "length (heap (snd (py_next a s))) = length (heap s)"
  by (simp add: py_next_heap split: sum.splits)

lemma py_next_container:
  "container_at (snd (py_next a s)) c = container_at s c"
proof (cases "fst (py_next a s)")
  case (Inl e)
  then have "heap (snd (py_next a s)) = heap s"
    by (simp add: py_next_heap)
  then show ?thesis
    by (simp add: container_at_def heap_get_def)
next
  case (Inr v)
  then have it: "is_iterator s a"
    by (rule py_next_Inr_iterator)
  show ?thesis
  proof (cases "c = a")
    case False
    then show ?thesis
      by (simp add: container_at_def py_next_frame)
  next
    case True
    from it obtain ob i where ob: "heap_get s a = Some ob" "cursor ob = Some i"
      by (auto simp: is_iterator_def split: option.splits)
    then have "heap_get (snd (py_next a s)) a = Some (set_cursor (i + 1) ob)"
      using Inr by (auto simp: heap_get_def py_next_heap split: if_splits)
    with ob True show ?thesis
      by (cases ob) (simp_all add: container_at_def)
  qed
qed

lemma py_next_heap_eq:
  "heap s1 = heap s \<Longrightarrow> fst (py_next a s1) = fst (py_next a s)"
  by (rule py_next_local) (simp_all add: container_at_def heap_get_def)

lemma py_next_error_again:
  assumes "fst (py_next a s) = Inl e"
  shows "fst (py_next a (snd (py_next a s))) = Inl e"
proof -
  from assms have "heap (snd (py_next a s)) = heap s"
    by (simp add: py_next_heap)
  then have "fst (py_next a (snd (py_next a s))) = fst (py_next a s)"
    by (rule py_next_heap_eq)
  with assms show ?thesis by simp
qed

lemma fst_call_n_Suc [simp]:
  "fst (call_n m (Suc n) a s) = fst (m a s) # fst (call_n m n a (snd (m a s)))"
  by (simp split: prod.splits)

lemma snd_call_n_Suc [simp]:
  "snd (call_n m (Suc n) a s) = snd (call_n m n a (snd (m a s)))"
  by (simp split: prod.splits)

lemma heap_get_length [simp]: "heap_get s (length (heap s)) = None"
  by (simp add: heap_get_def)

declare call_n.simps(2) [simp del]

lemma call_n_error:
  "fst (py_next a s) = Inl e \<Longrightarrow> fst (call_n py_next k a s) = replicate k (Inl e)"
proof (induction k arbitrary: s)
  case 0
  then show ?case by simp
next
  case (Suc k)
  from Suc.prems have "fst (py_next a (snd (py_next a s))) = Inl e"
    by (rule py_next_error_again)
  then have "fst (call_n py_next k a (snd (py_next a s))) = replicate k (Inl e)"
    by (rule Suc.IH)
  with Suc.prems show ?case
    by (simp only: fst_call_n_Suc replicate_Suc)
qed

lemma py_iter_iterator:
  "is_iterator s p \<Longrightarrow>
   py_iter p s =
     (Inr p, if traced s p then print ''Calling CitiyIterator instance __iter__'' s else s)"
  by (auto simp: is_iterator_def traced_def py_iter_def Squares_iter_def Cities0_iter_def
        CityIterator_iter_def Cities_CityIterator_iter_def Let_def
      split: option.splits pyobj.splits)

lemma py_iter_iterator_heap: "is_iterator s p \<Longrightarrow> heap (snd (py_iter p s)) = heap s"
  by (simp add: py_iter_iterator)

section \<open>Exhaustion is permanent\<close>

text \<open>
  C2. Once a call of \<^verbatim>\<open>next\<close> on an iterator has raised \<^verbatim>\<open>StopIteration\<close>, every later
  call of \<^verbatim>\<open>next\<close> on the same iterator raises \<^verbatim>\<open>StopIteration\<close> again: it gives no
  value and raises no other exception, however many calls follow. This holds for every
  address and every state, hence for every iterator class (\<^verbatim>\<open>Squares\<close>, the
  self-iterating \<^verbatim>\<open>Cities\<close>, both \<^verbatim>\<open>CityIterator\<close> classes).
\<close>

theorem exhausted_stays_exhausted:
  "fst (py_next a s) = Inl StopIteration \<Longrightarrow>
   fst (call_n py_next k a (snd (py_next a s))) = replicate k (Inl StopIteration)"
  by (rule call_n_error) (rule py_next_error_again)

theorem exhausted_stays_exhausted_witness:
  "fst (py_next 1 \<lparr>heap = [Cities [''Rome'', ''Oslo''], CityIterator 0 2], stdout = []\<rparr>)
     = Inl StopIteration \<and>
   fst (call_n py_next 3 1
         (snd (py_next 1 \<lparr>heap = [Cities [''Rome'', ''Oslo''], CityIterator 0 2], stdout = []\<rparr>)))
     = [Inl StopIteration, Inl StopIteration, Inl StopIteration]"
proof -
  let ?s = "\<lparr>heap = [Cities [''Rome'', ''Oslo''], CityIterator 0 2], stdout = []\<rparr>"
  have h: "fst (py_next 1 ?s) = Inl StopIteration"
    by code_simp
  from exhausted_stays_exhausted [OF h, of 3] h show ?thesis
    by (simp add: numeral_eq_Suc)
qed

section \<open>An iterator is its own iterator\<close>

text \<open>
  C3. For an iterator \<open>p\<close> in any state (any cursor, exhausted or not), \<^verbatim>\<open>iter(p)\<close>
  returns the address \<open>p\<close> itself; the store is unchanged, so no object is created and the
  cursor of \<open>p\<close> is what it was, and the next call of \<^verbatim>\<open>next\<close> gives what it would have
  given before the call of \<^verbatim>\<open>iter\<close>.
\<close>

theorem iterator_iter_returns_self:
  "is_iterator s p \<Longrightarrow>
   fst (py_iter p s) = Inr p \<and>
   heap (snd (py_iter p s)) = heap s \<and>
   cursor_at (snd (py_iter p s)) p = cursor_at s p \<and>
   fst (py_next p (snd (py_iter p s))) = fst (py_next p s)"
  by (simp add: py_iter_iterator py_next_heap_eq [of "print l s" s for l] cursor_at_def)

theorem iterator_iter_returns_self_witness:
  "is_iterator \<lparr>heap = [Squares 5 3], stdout = []\<rparr> 0 \<and>
   fst (py_iter 0 \<lparr>heap = [Squares 5 3], stdout = []\<rparr>) = Inr 0 \<and>
   cursor_at (snd (py_iter 0 \<lparr>heap = [Squares 5 3], stdout = []\<rparr>)) 0 = Some 3 \<and>
   fst (py_next 0 (snd (py_iter 0 \<lparr>heap = [Squares 5 3], stdout = []\<rparr>))) = Inr (IntV 9)"
proof -
  let ?s = "\<lparr>heap = [Squares 5 3], stdout = []\<rparr>"
  have h: "is_iterator ?s 0"
    by code_simp
  have c: "cursor_at ?s 0 = Some 3"
    by code_simp
  have n: "fst (py_next 0 ?s) = Inr (IntV 9)"
    by code_simp
  from iterator_iter_returns_self [OF h] h c n show ?thesis
    by simp
qed

lemma py_next_at_self:
  "heap_get (snd (py_next a s)) a =
     (case fst (py_next a s) of
        Inl e \<Rightarrow> heap_get s a
      | Inr v \<Rightarrow> map_option (\<lambda>ob. set_cursor (the (cursor ob) + 1) ob) (heap_get s a))"
  by (simp add: heap_get_def py_next_heap split: sum.splits)

lemma set_cursor_cursor: "cursor ob = Some i \<Longrightarrow> cursor (set_cursor j ob) = Some j"
  by (cases ob) simp_all

lemma set_cursor_same: "cursor ob = Some i \<Longrightarrow> set_cursor i ob = ob"
  by (cases ob) simp_all

lemma cursor_at_py_next:
  "cursor_at (snd (py_next a s)) a =
     (case fst (py_next a s) of
        Inl e \<Rightarrow> cursor_at s a
      | Inr v \<Rightarrow> map_option (\<lambda>i. i + 1) (cursor_at s a))"
proof (cases "fst (py_next a s)")
  case (Inl e)
  then show ?thesis
    by (simp add: cursor_at_def py_next_at_self)
next
  case (Inr v)
  then have "is_iterator s a"
    by (rule py_next_Inr_iterator)
  then obtain ob i where "heap_get s a = Some ob" "cursor ob = Some i"
    by (auto simp: is_iterator_def split: option.splits)
  with Inr show ?thesis
    by (simp add: cursor_at_def py_next_at_self set_cursor_cursor)
qed

lemma cursor_at_iterator: "cursor_at s a = Some i \<Longrightarrow> is_iterator s a"
  by (simp add: cursor_at_def is_iterator_def split: option.splits)

lemma cursor_at_heap_eq: "heap s1 = heap s \<Longrightarrow> cursor_at s1 a = cursor_at s a"
  by (simp add: cursor_at_def heap_get_def)

lemma bound_at_heap_eq:
  assumes "heap s1 = heap s"
  shows "bound_at s1 a = bound_at s a"
proof -
  from assms have g: "heap_get s1 = heap_get s"
    by (simp add: heap_get_def fun_eq_iff)
  then have "\<And>c. py_len c s1 = py_len c s"
    by (simp add: py_len_eq)
  with g show ?thesis
    by (simp add: bound_at_def split: option.splits pyobj.splits)
qed

lemma cursor_at_py_iter: "cursor_at s a = Some i \<Longrightarrow> cursor_at (snd (py_iter a s)) a = Some i"
  using cursor_at_heap_eq [OF py_iter_iterator_heap [OF cursor_at_iterator]] by simp

lemma apply_op_cursor:
  "cursor_at s a = Some i \<Longrightarrow>
   \<exists>j. cursor_at (apply_op x a s) a = Some j \<and> i \<le> j"
  by (cases x) (auto simp: cursor_at_py_next cursor_at_py_iter split: sum.splits)

lemma apply_ops_cursor:
  "cursor_at s a = Some i \<Longrightarrow>
   \<exists>j. cursor_at (apply_ops ops a s) a = Some j \<and> i \<le> j"
proof (induction ops arbitrary: s i)
  case Nil
  then show ?case by simp
next
  case (Cons x ops)
  from apply_op_cursor [OF Cons.prems, of x]
  obtain j where j: "cursor_at (apply_op x a s) a = Some j" "i \<le> j"
    by blast
  from Cons.IH [OF j(1)] obtain k where "cursor_at (apply_ops ops a (apply_op x a s)) a = Some k" "j \<le> k"
    by blast
  with j show ?case by auto
qed

lemma apply_ops_append: "apply_ops (xs @ ys) a s = apply_ops ys a (apply_ops xs a s)"
  by (induction xs arbitrary: s) simp_all

lemma exhausted_next:
  "cursor_at s a = Some i \<Longrightarrow> bound_at s a = Some n \<Longrightarrow> n \<le> i \<Longrightarrow>
   fst (py_next a s) = Inl StopIteration"
  by (auto simp: cursor_at_def bound_at_def py_next_def Squares_next_eq Cities0_next_eq
        CityIterator_next_eq Cities_CityIterator_next_eq py_len_container Let_def
      split: option.splits pyobj.splits sum.splits)

lemma exhausted_apply_op:
  assumes "cursor_at s a = Some i" "bound_at s a = Some n" "n \<le> i"
  shows "heap (apply_op x a s) = heap s"
proof (cases x)
  case Advance
  from exhausted_next [OF assms] show ?thesis
    by (simp add: Advance py_next_heap)
next
  case AsProducer
  from cursor_at_iterator [OF assms(1)] show ?thesis
    by (simp add: AsProducer py_iter_iterator_heap)
qed

lemma exhausted_apply_ops:
  "cursor_at s a = Some i \<Longrightarrow> bound_at s a = Some n \<Longrightarrow> n \<le> i \<Longrightarrow>
   heap (apply_ops ops a s) = heap s"
proof (induction ops arbitrary: s)
  case Nil
  then show ?case by simp
next
  case (Cons x ops)
  from exhausted_apply_op [OF Cons.prems] have h: "heap (apply_op x a s) = heap s" .
  with Cons.prems have "cursor_at (apply_op x a s) a = Some i" "bound_at (apply_op x a s) a = Some n"
    by (simp_all add: cursor_at_heap_eq [OF h] bound_at_heap_eq [OF h])
  from Cons.IH [OF this Cons.prems(3)] h show ?case
    by simp
qed

section \<open>A call of next changes the cursor and nothing else\<close>

text \<open>
  C8. For every iterator in every state, a call of \<^verbatim>\<open>next\<close> creates and deletes no
  object, leaves every other object of the store as it was (the other iterators with their
  cursors, and every \<^verbatim>\<open>Cities\<close> collection with its list of elements and its length), and
  changes the iterator itself in its cursor at most. The classes without trace
  (\<^verbatim>\<open>Squares\<close>, the first \<^verbatim>\<open>Cities\<close>, the first \<^verbatim>\<open>CityIterator\<close>) print nothing; the
  nested \<^verbatim>\<open>Cities.CityIterator\<close> prints its trace line.
\<close>

theorem next_changes_only_own_cursor:
  assumes "is_iterator s a"
  shows "length (heap (snd (py_next a s))) = length (heap s) \<and>
    (\<forall>b. b \<noteq> a \<longrightarrow> heap_get (snd (py_next a s)) b = heap_get s b) \<and>
    (\<forall>c. container_at (snd (py_next a s)) c = container_at s c) \<and>
    (\<forall>c. py_len c (snd (py_next a s)) = py_len c s) \<and>
    (\<exists>ob i j. heap_get s a = Some ob \<and> cursor ob = Some i \<and>
       heap_get (snd (py_next a s)) a = Some (set_cursor j ob)) \<and>
    (\<not> traced s a \<longrightarrow> stdout (snd (py_next a s)) = stdout s)"
proof -
  from assms obtain ob i where ob: "heap_get s a = Some ob" "cursor ob = Some i"
    by (auto simp: is_iterator_def split: option.splits)
  have "heap_get (snd (py_next a s)) a = Some (set_cursor i ob)
      \<or> heap_get (snd (py_next a s)) a = Some (set_cursor (i + 1) ob)"
    using ob by (simp add: py_next_at_self set_cursor_same split: sum.splits)
  with ob have "\<exists>ob i j. heap_get s a = Some ob \<and> cursor ob = Some i \<and>
       heap_get (snd (py_next a s)) a = Some (set_cursor j ob)"
    by blast
  then show ?thesis
    by (simp add: py_next_length py_next_frame py_next_container py_len_container
          py_next_stdout)
qed

theorem next_changes_only_own_cursor_witness:
  "is_iterator \<lparr>heap = [Cities [''Rome'', ''Oslo''], CityIterator 0 1, CityIterator 0 0],
      stdout = []\<rparr> 1 \<and>
   heap (snd (py_next 1 \<lparr>heap = [Cities [''Rome'', ''Oslo''], CityIterator 0 1, CityIterator 0 0],
      stdout = []\<rparr>))
     = [Cities [''Rome'', ''Oslo''], CityIterator 0 2, CityIterator 0 0] \<and>
   stdout (snd (py_next 1 \<lparr>heap = [Cities [''Rome'', ''Oslo''], CityIterator 0 1, CityIterator 0 0],
      stdout = []\<rparr>)) = []"
proof -
  let ?s = "\<lparr>heap = [Cities [''Rome'', ''Oslo''], CityIterator 0 1, CityIterator 0 0],
      stdout = []\<rparr>"
  have h: "is_iterator ?s 1"
    by code_simp
  have t: "\<not> traced ?s 1"
    by code_simp
  have v: "heap (snd (py_next 1 ?s))
      = [Cities [''Rome'', ''Oslo''], CityIterator 0 2, CityIterator 0 0]"
    by code_simp
  from next_changes_only_own_cursor [OF h] t have "stdout (snd (py_next 1 ?s)) = stdout ?s"
    by blast
  with h v show ?thesis
    by simp
qed

section \<open>The cursor never goes back\<close>

text \<open>
  C9. For an iterator with cursor \<open>i\<close>: a call of \<^verbatim>\<open>next\<close> that gives a value moves
  the cursor to \<open>i + 1\<close>, a call that raises leaves it at \<open>i\<close>, and \<^verbatim>\<open>iter\<close> leaves it at
  \<open>i\<close>; along every sequence of \<^verbatim>\<open>next\<close> and \<^verbatim>\<open>iter\<close> calls the cursor never decreases.
  Once the cursor has reached the bound (the \<^verbatim>\<open>length\<close> of a \<^verbatim>\<open>Squares\<close>, the length
  of the collection otherwise), no sequence of these calls changes the cursor or the
  bound, and \<^verbatim>\<open>next\<close> raises \<^verbatim>\<open>StopIteration\<close> after each of them.
\<close>

theorem cursor_never_decreases:
  assumes "cursor_at s a = Some i"
  shows "(\<forall>v. fst (py_next a s) = Inr v \<longrightarrow> cursor_at (snd (py_next a s)) a = Some (i + 1)) \<and>
    (\<forall>e. fst (py_next a s) = Inl e \<longrightarrow> cursor_at (snd (py_next a s)) a = Some i) \<and>
    cursor_at (snd (py_iter a s)) a = Some i \<and>
    (\<forall>ops ops'. \<exists>j k. cursor_at (apply_ops ops a s) a = Some j \<and>
       cursor_at (apply_ops (ops @ ops') a s) a = Some k \<and> i \<le> j \<and> j \<le> k) \<and>
    (\<forall>n. bound_at s a = Some n \<and> n \<le> i \<longrightarrow>
       (\<forall>ops. cursor_at (apply_ops ops a s) a = Some i \<and>
              bound_at (apply_ops ops a s) a = Some n \<and>
              fst (py_next a (apply_ops ops a s)) = Inl StopIteration))"
proof (intro conjI allI impI)
  fix v assume "fst (py_next a s) = Inr v"
  with assms show "cursor_at (snd (py_next a s)) a = Some (i + 1)"
    by (simp add: cursor_at_py_next)
next
  fix e assume "fst (py_next a s) = Inl e"
  with assms show "cursor_at (snd (py_next a s)) a = Some i"
    by (simp add: cursor_at_py_next)
next
  from assms show "cursor_at (snd (py_iter a s)) a = Some i"
    by (rule cursor_at_py_iter)
next
  fix ops ops'
  from apply_ops_cursor [OF assms, of ops]
  obtain j where j: "cursor_at (apply_ops ops a s) a = Some j" "i \<le> j"
    by blast
  from apply_ops_cursor [OF j(1), of ops']
  obtain k where "cursor_at (apply_ops ops' a (apply_ops ops a s)) a = Some k" "j \<le> k"
    by blast
  with j show "\<exists>j k. cursor_at (apply_ops ops a s) a = Some j \<and>
       cursor_at (apply_ops (ops @ ops') a s) a = Some k \<and> i \<le> j \<and> j \<le> k"
    by (auto simp: apply_ops_append)
next
  fix n ops
  assume b: "bound_at s a = Some n \<and> n \<le> i"
  then have h: "heap (apply_ops ops a s) = heap s"
    using exhausted_apply_ops [OF assms, of n ops] by simp
  from assms show c: "cursor_at (apply_ops ops a s) a = Some i"
    by (simp add: cursor_at_heap_eq [OF h])
  from b show d: "bound_at (apply_ops ops a s) a = Some n"
    by (simp add: bound_at_heap_eq [OF h])
  from b show "fst (py_next a (apply_ops ops a s)) = Inl StopIteration"
    using exhausted_next [OF c d] by simp
qed

theorem cursor_never_decreases_witness:
  "cursor_at \<lparr>heap = [Squares 2 1], stdout = []\<rparr> 0 = Some 1 \<and>
   fst (py_next 0 \<lparr>heap = [Squares 2 1], stdout = []\<rparr>) = Inr (IntV 1) \<and>
   cursor_at (snd (py_next 0 \<lparr>heap = [Squares 2 1], stdout = []\<rparr>)) 0 = Some 2 \<and>
   cursor_at \<lparr>heap = [Squares 2 2], stdout = []\<rparr> 0 = Some 2 \<and>
   bound_at \<lparr>heap = [Squares 2 2], stdout = []\<rparr> 0 = Some 2 \<and>
   cursor_at (apply_ops [Advance, AsProducer, Advance] 0 \<lparr>heap = [Squares 2 2], stdout = []\<rparr>) 0
     = Some 2 \<and>
   fst (py_next 0 (apply_ops [Advance, AsProducer, Advance] 0 \<lparr>heap = [Squares 2 2], stdout = []\<rparr>))
     = Inl StopIteration"
proof -
  let ?s = "\<lparr>heap = [Squares 2 1], stdout = []\<rparr>"
  let ?t = "\<lparr>heap = [Squares 2 2], stdout = []\<rparr>"
  have c: "cursor_at ?s 0 = Some 1"
    by code_simp
  have v: "fst (py_next 0 ?s) = Inr (IntV 1)"
    by code_simp
  have d: "cursor_at ?t 0 = Some 2"
    by code_simp
  have b: "bound_at ?t 0 = Some 2"
    by code_simp
  from cursor_never_decreases [OF c] v
  have "cursor_at (snd (py_next 0 ?s)) 0 = Some 2"
    by simp
  moreover from cursor_never_decreases [OF d] b
  have "cursor_at (apply_ops [Advance, AsProducer, Advance] 0 ?t) 0 = Some 2 \<and>
    fst (py_next 0 (apply_ops [Advance, AsProducer, Advance] 0 ?t)) = Inl StopIteration"
    by blast
  ultimately show ?thesis
    using c v d b by blast
qed

section \<open>Walking a collection with a fresh iterator\<close>

lemma list_getitem_nat: "i < length xs \<Longrightarrow> list_getitem xs (int i) = Inr (xs ! i)"
  by (simp add: list_getitem_def)

lemma city_iterator_step:
  assumes "city_iterator_at s p c (int i)" "container_at s c = Some cs" "i < length cs"
  shows "fst (py_next p s) = Inr (StrV (cs ! i))"
    and "city_iterator_at (snd (py_next p s)) p c (int (Suc i))"
  using assms
  by (auto simp: city_iterator_at_def py_next_def CityIterator_next_eq
        Cities_CityIterator_next_eq list_getitem_nat Let_def add.commute)

lemma city_iterator_stop:
  assumes "city_iterator_at s p c i" "container_at s c = Some cs" "int (length cs) \<le> i"
  shows "fst (py_next p s) = Inl StopIteration"
  using assms
  by (auto simp: city_iterator_at_def py_next_def CityIterator_next_eq
        Cities_CityIterator_next_eq Let_def)

lemma city_iterator_run:
  "city_iterator_at s p c (int i) \<Longrightarrow> container_at s c = Some cs \<Longrightarrow> i \<le> length cs \<Longrightarrow>
   n = length cs - i \<Longrightarrow>
   fst (call_n py_next (Suc n) p s) = map (\<lambda>x. Inr (StrV x)) (drop i cs) @ [Inl StopIteration]"
proof (induction n arbitrary: i s)
  case 0
  then have "fst (py_next p s) = Inl StopIteration"
    using city_iterator_stop [of s p c "int i" cs] by simp
  with 0 show ?case
    by simp
next
  case (Suc n)
  then have lt: "i < length cs" by simp
  let ?s1 = "snd (py_next p s)"
  from city_iterator_step [OF Suc.prems(1,2) lt]
  have v: "fst (py_next p s) = Inr (StrV (cs ! i))"
    and it: "city_iterator_at ?s1 p c (int (Suc i))"
    by simp_all
  have c: "container_at ?s1 c = Some cs"
    using Suc.prems(2) by (simp add: py_next_container)
  from Suc.prems lt have "Suc i \<le> length cs" "n = length cs - Suc i"
    by simp_all
  from Suc.IH [OF it c this]
  have "fst (call_n py_next (Suc n) p ?s1)
      = map (\<lambda>x. Inr (StrV x)) (drop (Suc i) cs) @ [Inl StopIteration]" .
  moreover have "drop i cs = cs ! i # drop (Suc i) cs"
    using lt by (simp add: Cons_nth_drop_Suc)
  ultimately show ?case
    using v by (simp only: fst_call_n_Suc [of py_next "Suc n"] list.map append_Cons)
qed

lemma container_at_alloc:
  "\<forall>cs. ob \<noteq> Cities cs \<Longrightarrow> container_at (snd (alloc ob s)) c = container_at s c"
  by (cases ob) (auto simp: container_at_def heap_get_alloc)

lemma Cities_iter_eq:
  "container_at s c = Some cs \<Longrightarrow>
   Cities_iter c s =
     (Inr (length (heap s)),
      snd (alloc (Cities_CityIterator c 0)
        (print ''Calling CityIterator __init__'' (print ''Calling Cities instance __iter__'' s))))"
  by (auto simp: Cities_iter_def Cities_CityIterator_init_def container_at_def Let_def alloc_def
      split: option.splits pyobj.splits prod.splits)

lemma Cities_iter_facts:
  assumes "container_at s c = Some cs"
  shows "fst (Cities_iter c s) = Inr (length (heap s))"
    and "heap (snd (Cities_iter c s)) = heap s @ [Cities_CityIterator c 0]"
    and "stdout (snd (Cities_iter c s))
      = stdout s @ [''Calling Cities instance __iter__'', ''Calling CityIterator __init__'']"
  using assms by (simp_all add: Cities_iter_eq alloc_def)

lemma heap_get_append:
  "heap s1 = heap s @ [ob] \<Longrightarrow>
   heap_get s1 b = (if b = length (heap s) then Some ob else heap_get s b)"
  by (simp add: heap_get_def nth_append)

lemma Cities_iter_new:
  assumes "container_at s c = Some cs"
  shows "city_iterator_at (snd (Cities_iter c s)) (length (heap s)) c 0"
    and "container_at (snd (Cities_iter c s)) c' = container_at s c'"
    and "b < length (heap s) \<Longrightarrow> heap_get (snd (Cities_iter c s)) b = heap_get s b"
  using heap_get_append [OF Cities_iter_facts(2) [OF assms]]
  by (auto simp: city_iterator_at_def container_at_def heap_get_def)

lemma py_iter_Cities: "container_at s c = Some cs \<Longrightarrow> py_iter c s = Cities_iter c s"
  by (simp add: py_iter_def container_at_def split: option.splits pyobj.splits)

lemma Cities_len_container: "container_at s c = Some cs \<Longrightarrow> Cities_len c s = Inr (int (length cs))"
  by (simp add: Cities_len_def container_at_def split: option.splits pyobj.splits)

text \<open>
  C1. For every \<^verbatim>\<open>Cities\<close> collection with \<open>n\<close> elements (\<open>n = 0\<close> included),
  \<^verbatim>\<open>len\<close> returns \<open>n\<close>, and on the iterator that \<^verbatim>\<open>iter\<close> returns the first \<open>n\<close> calls of
  \<^verbatim>\<open>next\<close> return the \<open>n\<close> elements in the order of the list and call \<open>n + 1\<close> raises
  \<^verbatim>\<open>StopIteration\<close>. The same holds for an iterator made with \<^verbatim>\<open>CityIterator(cities)\<close>
  (part-3, line 245). For the empty collection the first call of \<^verbatim>\<open>next\<close> raises
  \<^verbatim>\<open>StopIteration\<close>.
\<close>

theorem fresh_iterator_yields_all_then_stops:
  assumes "heap_get s c = Some (Cities cs)"
  shows "Cities_len c s = Inr (int (length cs)) \<and>
    py_len c s = Inr (int (length cs)) \<and>
    (\<exists>p. fst (py_iter c s) = Inr p \<and>
       fst (call_n py_next (length cs + 1) p (snd (py_iter c s)))
         = map (\<lambda>x. Inr (StrV x)) cs @ [Inl StopIteration]) \<and>
    fst (call_n py_next (length cs + 1) (fst (CityIterator_init c s)) (snd (CityIterator_init c s)))
      = map (\<lambda>x. Inr (StrV x)) cs @ [Inl StopIteration]"
proof -
  from assms have c: "container_at s c = Some cs"
    by (simp add: container_at_def)
  let ?s1 = "snd (Cities_iter c s)" and ?p = "length (heap s)"
  have "city_iterator_at ?s1 ?p c (int 0)" "container_at ?s1 c = Some cs"
    using Cities_iter_new [OF c] c by simp_all
  from city_iterator_run [OF this, of "length cs"]
  have run: "fst (call_n py_next (length cs + 1) ?p ?s1)
      = map (\<lambda>x. Inr (StrV x)) cs @ [Inl StopIteration]"
    by simp
  let ?s2 = "snd (CityIterator_init c s)"
  have "city_iterator_at ?s2 ?p c (int 0)" "container_at ?s2 c = Some cs"
    using c by (simp_all add: city_iterator_at_def CityIterator_init_def heap_get_alloc
        container_at_alloc)
  from city_iterator_run [OF this, of "length cs"]
  have "fst (call_n py_next (length cs + 1) ?p ?s2)
      = map (\<lambda>x. Inr (StrV x)) cs @ [Inl StopIteration]"
    by simp
  then show ?thesis
    using run c
    by (simp add: py_iter_Cities Cities_iter_facts(1) Cities_len_container py_len_container
          CityIterator_init_def)
qed

theorem fresh_iterator_yields_all_then_stops_witness:
  "heap_get \<lparr>heap = [Cities []], stdout = []\<rparr> 0 = Some (Cities []) \<and>
   Cities_len 0 \<lparr>heap = [Cities []], stdout = []\<rparr> = Inr 0 \<and>
   fst (py_iter 0 \<lparr>heap = [Cities []], stdout = []\<rparr>) = Inr 1 \<and>
   fst (call_n py_next 1 1 (snd (py_iter 0 \<lparr>heap = [Cities []], stdout = []\<rparr>)))
     = [Inl StopIteration] \<and>
   heap_get \<lparr>heap = [Cities [''Rome'', ''Oslo'']], stdout = []\<rparr> 0
     = Some (Cities [''Rome'', ''Oslo'']) \<and>
   fst (py_iter 0 \<lparr>heap = [Cities [''Rome'', ''Oslo'']], stdout = []\<rparr>) = Inr 1 \<and>
   fst (call_n py_next 3 1 (snd (py_iter 0 \<lparr>heap = [Cities [''Rome'', ''Oslo'']], stdout = []\<rparr>)))
     = [Inr (StrV ''Rome''), Inr (StrV ''Oslo''), Inl StopIteration]"
proof -
  let ?e = "\<lparr>heap = [Cities []], stdout = []\<rparr>"
  let ?s = "\<lparr>heap = [Cities [''Rome'', ''Oslo'']], stdout = []\<rparr>"
  have he: "heap_get ?e 0 = Some (Cities [])"
    by code_simp
  have hs: "heap_get ?s 0 = Some (Cities [''Rome'', ''Oslo''])"
    by code_simp
  have pe: "fst (py_iter 0 ?e) = Inr 1"
    by code_simp
  have ps: "fst (py_iter 0 ?s) = Inr 1"
    by code_simp
  from fresh_iterator_yields_all_then_stops [OF he] pe
  have "Cities_len 0 ?e = Inr 0 \<and>
    fst (call_n py_next 1 1 (snd (py_iter 0 ?e))) = [Inl StopIteration]"
    by auto
  moreover from fresh_iterator_yields_all_then_stops [OF hs] ps
  have "fst (call_n py_next 3 1 (snd (py_iter 0 ?s)))
      = [Inr (StrV ''Rome''), Inr (StrV ''Oslo''), Inl StopIteration]"
    by (auto simp: numeral_eq_Suc)
  ultimately show ?thesis
    using he hs pe ps by blast
qed

section \<open>Two iterators of one collection\<close>

lemma call_n_frame:
  "b \<noteq> a \<Longrightarrow> heap_get (snd (call_n py_next n a s)) b = heap_get s b"
  by (induction n arbitrary: s) (simp_all add: py_next_frame)

lemma call_n_container:
  "container_at (snd (call_n py_next n a s)) c = container_at s c"
  by (induction n arbitrary: s) (simp_all add: py_next_container)

lemma call_n_independent:
  assumes "p \<noteq> a"
  shows "fst (py_next p (snd (call_n py_next n a s))) = fst (py_next p s)"
  by (rule py_next_local) (simp_all add: call_n_frame [OF assms] call_n_container)

text \<open>
  C4. For every \<^verbatim>\<open>Cities\<close> collection, each call of its \<^verbatim>\<open>__iter__\<close> creates a new
  iterator object, at an address that held no object before, with its cursor at \<open>0\<close>. Two
  iterators \<open>p1\<close> and \<open>p2\<close> obtained by two calls are different objects, and any number
  of calls of \<^verbatim>\<open>next\<close> on one of them leaves the other object (its cursor included) and
  the outcome of its next call of \<^verbatim>\<open>next\<close> unchanged.
\<close>

theorem iterators_of_a_collection_are_independent:
  assumes "heap_get s c = Some (Cities cs)"
  shows "\<exists>p1 p2 s1 s2.
    Cities_iter c s = (Inr p1, s1) \<and> Cities_iter c s1 = (Inr p2, s2) \<and>
    p1 \<noteq> p2 \<and> heap_get s p1 = None \<and> heap_get s1 p2 = None \<and>
    heap_get s1 p1 = Some (Cities_CityIterator c 0) \<and>
    heap_get s2 p1 = Some (Cities_CityIterator c 0) \<and>
    heap_get s2 p2 = Some (Cities_CityIterator c 0) \<and>
    (\<forall>n. heap_get (snd (call_n py_next n p1 s2)) p2 = heap_get s2 p2 \<and>
         fst (py_next p2 (snd (call_n py_next n p1 s2))) = fst (py_next p2 s2)) \<and>
    (\<forall>n. heap_get (snd (call_n py_next n p2 s2)) p1 = heap_get s2 p1 \<and>
         fst (py_next p1 (snd (call_n py_next n p2 s2))) = fst (py_next p1 s2))"
proof -
  from assms have c: "container_at s c = Some cs"
    by (simp add: container_at_def)
  let ?p1 = "length (heap s)" and ?s1 = "snd (Cities_iter c s)"
  have c1: "container_at ?s1 c = Some cs"
    using Cities_iter_new(2) [OF c] c by simp
  let ?p2 = "length (heap ?s1)" and ?s2 = "snd (Cities_iter c ?s1)"
  have h1: "heap ?s1 = heap s @ [Cities_CityIterator c 0]"
    by (rule Cities_iter_facts(2) [OF c])
  have h2: "heap ?s2 = heap ?s1 @ [Cities_CityIterator c 0]"
    by (rule Cities_iter_facts(2) [OF c1])
  have e1: "Cities_iter c s = (Inr ?p1, ?s1)"
    using Cities_iter_facts(1) [OF c] by (simp add: prod_eq_iff)
  have e2: "Cities_iter c ?s1 = (Inr ?p2, ?s2)"
    using Cities_iter_facts(1) [OF c1] by (simp add: prod_eq_iff)
  have ne: "?p1 \<noteq> ?p2"
    by (simp add: h1)
  have g: "heap_get ?s1 ?p1 = Some (Cities_CityIterator c 0)"
    "heap_get ?s2 ?p1 = Some (Cities_CityIterator c 0)"
    "heap_get ?s2 ?p2 = Some (Cities_CityIterator c 0)"
    by (simp_all add: heap_get_append [OF h1] heap_get_append [OF h2])
  have ind: "\<forall>n. heap_get (snd (call_n py_next n ?p1 ?s2)) ?p2 = heap_get ?s2 ?p2 \<and>
         fst (py_next ?p2 (snd (call_n py_next n ?p1 ?s2))) = fst (py_next ?p2 ?s2)"
    "\<forall>n. heap_get (snd (call_n py_next n ?p2 ?s2)) ?p1 = heap_get ?s2 ?p1 \<and>
         fst (py_next ?p1 (snd (call_n py_next n ?p2 ?s2))) = fst (py_next ?p1 ?s2)"
    using ne by (simp_all add: call_n_frame call_n_independent)
  show ?thesis
    using e1 e2 ne g ind by (intro exI [of _ ?p1] exI [of _ ?p2] exI [of _ ?s1] exI [of _ ?s2]) simp
qed

theorem iterators_of_a_collection_are_independent_witness:
  "heap_get (snd (Cities_init \<lparr>heap = [], stdout = []\<rparr>)) 0
     = Some (Cities [''New York'', ''Newark'', ''New Delhi'', ''Newcastle'']) \<and>
   fst (Cities_iter 0 (snd (Cities_init \<lparr>heap = [], stdout = []\<rparr>))) = Inr 1 \<and>
   fst (Cities_iter 0 (snd (Cities_iter 0 (snd (Cities_init \<lparr>heap = [], stdout = []\<rparr>)))))
     = Inr 2 \<and>
   fst (py_next 2
     (snd (call_n py_next 3 1
       (snd (Cities_iter 0 (snd (Cities_iter 0 (snd (Cities_init \<lparr>heap = [], stdout = []\<rparr>)))))))))
     = Inr (StrV ''New York'')"
proof -
  let ?s = "snd (Cities_init \<lparr>heap = [], stdout = []\<rparr>)"
  let ?s1 = "snd (Cities_iter 0 ?s)"
  let ?s2 = "snd (Cities_iter 0 ?s1)"
  have h: "heap_get ?s 0 = Some (Cities [''New York'', ''Newark'', ''New Delhi'', ''Newcastle''])"
    by code_simp
  have p1: "fst (Cities_iter 0 ?s) = Inr 1"
    by code_simp
  have p2: "fst (Cities_iter 0 ?s1) = Inr 2"
    by code_simp
  have v: "fst (py_next 2 ?s2) = Inr (StrV ''New York'')"
    by code_simp
  from iterators_of_a_collection_are_independent [OF h]
  obtain q1 q2 t1 t2 where e: "Cities_iter 0 ?s = (Inr q1, t1)" "Cities_iter 0 t1 = (Inr q2, t2)"
    and ind: "\<forall>n. heap_get (snd (call_n py_next n q1 t2)) q2 = heap_get t2 q2 \<and>
         fst (py_next q2 (snd (call_n py_next n q1 t2))) = fst (py_next q2 t2)"
    by blast
  from e(1) p1 have q1: "q1 = 1" "t1 = ?s1"
    by simp_all
  with e(2) p2 have q2: "q2 = 2" "t2 = ?s2"
    by simp_all
  from ind q1 q2 have "fst (py_next 2 (snd (call_n py_next 3 1 ?s2))) = fst (py_next 2 ?s2)"
    by blast
  with h p1 p2 v show ?thesis
    by simp
qed

section \<open>Looping over a collection, twice, and over an exhausted iterator\<close>

lemma for_items_unfold:
  "for_items p s =
     (case fst (py_next p s) of
        Inl e \<Rightarrow>
          if e = StopIteration then (Inr [], snd (py_next p s)) else (Inl e, snd (py_next p s))
      | Inr item \<Rightarrow>
          (case fst (for_items p (snd (py_next p s))) of
             Inl e \<Rightarrow> (Inl e, snd (for_items p (snd (py_next p s))))
           | Inr items \<Rightarrow> (Inr (item # items), snd (for_items p (snd (py_next p s))))))"
  by (subst for_items.simps) (auto split: prod.splits sum.splits)

lemma for_items_stop:
  "fst (py_next p s) = Inl StopIteration \<Longrightarrow> for_items p s = (Inr [], snd (py_next p s))"
  by (subst for_items_unfold) simp

lemma fst_for_items_step:
  "fst (py_next p s) = Inr v \<Longrightarrow>
   fst (for_items p s) =
     (case fst (for_items p (snd (py_next p s))) of
        Inl e \<Rightarrow> Inl e
      | Inr items \<Rightarrow> Inr (v # items))"
  by (subst for_items_unfold) (simp split: sum.splits)

lemma snd_for_items:
  "snd (for_items p s) =
     (case fst (py_next p s) of
        Inl e \<Rightarrow> snd (py_next p s)
      | Inr item \<Rightarrow> snd (for_items p (snd (py_next p s))))"
  by (subst for_items_unfold) (simp split: sum.splits)

lemma for_loop_unfold:
  "for_loop ob s =
     (case fst (py_iter ob s) of
        Inl e \<Rightarrow> (Inl e, snd (py_iter ob s))
      | Inr it \<Rightarrow> for_items it (snd (py_iter ob s)))"
  by (auto simp: for_loop_def split: prod.splits sum.splits)

lemma for_items_frame:
  "b \<noteq> p \<Longrightarrow> heap_get (snd (for_items p s)) b = heap_get s b"
proof (induction p s rule: for_items.induct)
  case (1 it s)
  show ?case
  proof (cases "fst (py_next it s)")
    case (Inl e)
    with 1 show ?thesis
      by (subst snd_for_items) (simp add: py_next_frame)
  next
    case (Inr v)
    with 1 have "heap_get (snd (for_items it (snd (py_next it s)))) b
        = heap_get (snd (py_next it s)) b"
      by (simp add: prod_eq_iff)
    with 1 Inr show ?thesis
      by (subst snd_for_items) (simp add: py_next_frame)
  qed
qed

lemma for_items_container:
  "container_at (snd (for_items p s)) c = container_at s c"
proof (induction p s rule: for_items.induct)
  case (1 it s)
  show ?case
  proof (cases "fst (py_next it s)")
    case (Inl e)
    then show ?thesis
      by (subst snd_for_items) (simp add: py_next_container)
  next
    case (Inr v)
    with 1 have "container_at (snd (for_items it (snd (py_next it s)))) c
        = container_at (snd (py_next it s)) c"
      by (simp add: prod_eq_iff)
    with Inr show ?thesis
      by (subst snd_for_items) (simp add: py_next_container)
  qed
qed

lemma city_iterator_at_heap_eq:
  "heap s1 = heap s \<Longrightarrow> city_iterator_at s1 p c i = city_iterator_at s p c i"
  by (simp add: city_iterator_at_def heap_get_def)

lemma city_iterator_for_items:
  "city_iterator_at s p c (int i) \<Longrightarrow> container_at s c = Some cs \<Longrightarrow> i \<le> length cs \<Longrightarrow>
   n = length cs - i \<Longrightarrow>
   fst (for_items p s) = Inr (map StrV (drop i cs)) \<and>
   city_iterator_at (snd (for_items p s)) p c (int (length cs))"
proof (induction n arbitrary: i s)
  case 0
  then have stop: "fst (py_next p s) = Inl StopIteration"
    using city_iterator_stop [of s p c "int i" cs] by simp
  then have "heap (snd (py_next p s)) = heap s"
    by (simp add: py_next_heap)
  from city_iterator_at_heap_eq [OF this] 0 stop show ?case
    by (simp add: for_items_stop)
next
  case (Suc n)
  then have lt: "i < length cs" by simp
  let ?s1 = "snd (py_next p s)"
  from city_iterator_step [OF Suc.prems(1,2) lt]
  have v: "fst (py_next p s) = Inr (StrV (cs ! i))"
    and it: "city_iterator_at ?s1 p c (int (Suc i))"
    by simp_all
  have c: "container_at ?s1 c = Some cs"
    using Suc.prems(2) by (simp add: py_next_container)
  from Suc.prems lt have "Suc i \<le> length cs" "n = length cs - Suc i"
    by simp_all
  from Suc.IH [OF it c this]
  have ih: "fst (for_items p ?s1) = Inr (map StrV (drop (Suc i) cs))"
    "city_iterator_at (snd (for_items p ?s1)) p c (int (length cs))"
    by simp_all
  have "drop i cs = cs ! i # drop (Suc i) cs"
    using lt by (simp add: Cons_nth_drop_Suc)
  with ih show ?case
    by (simp add: fst_for_items_step [OF v] snd_for_items [of p s] v)
qed

lemma for_loop_Cities:
  assumes "container_at s c = Some cs"
  shows "fst (for_loop c s) = Inr (map StrV cs)"
    and "city_iterator_at (snd (for_loop c s)) (length (heap s)) c (int (length cs))"
    and "container_at (snd (for_loop c s)) c' = container_at s c'"
    and "b < length (heap s) \<Longrightarrow> heap_get (snd (for_loop c s)) b = heap_get s b"
proof -
  let ?p = "length (heap s)" and ?s1 = "snd (Cities_iter c s)"
  have e: "for_loop c s = for_items ?p ?s1"
    using Cities_iter_facts(1) [OF assms]
    by (simp add: for_loop_unfold py_iter_Cities [OF assms])
  have "city_iterator_at ?s1 ?p c (int 0)" "container_at ?s1 c = Some cs"
    using Cities_iter_new [OF assms] assms by simp_all
  from city_iterator_for_items [OF this, of "length cs"] e
  show "fst (for_loop c s) = Inr (map StrV cs)"
    and "city_iterator_at (snd (for_loop c s)) (length (heap s)) c (int (length cs))"
    by simp_all
  show "container_at (snd (for_loop c s)) c' = container_at s c'"
    by (simp add: e for_items_container Cities_iter_new(2) [OF assms])
  show "heap_get (snd (for_loop c s)) b = heap_get s b" if "b < length (heap s)"
    using that by (simp add: e for_items_frame Cities_iter_new(3) [OF assms])
qed

lemma for_loop_exhausted:
  assumes "city_iterator_at s p c i" "container_at s c = Some cs" "int (length cs) \<le> i"
  shows "fst (for_items p s) = Inr []" and "fst (for_loop p s) = Inr []"
proof -
  from city_iterator_stop [OF assms] show "fst (for_items p s) = Inr []"
    by (simp add: for_items_stop)
  from assms(1) have it: "is_iterator s p"
    by (auto simp: city_iterator_at_def is_iterator_def)
  let ?s1 = "snd (py_iter p s)"
  have h: "heap ?s1 = heap s"
    by (rule py_iter_iterator_heap [OF it])
  then have "fst (py_next p ?s1) = fst (py_next p s)"
    by (rule py_next_heap_eq)
  with city_iterator_stop [OF assms] have "fst (for_items p ?s1) = Inr []"
    by (simp add: for_items_stop)
  then show "fst (for_loop p s) = Inr []"
    by (simp add: for_loop_unfold py_iter_iterator [OF it])
qed

text \<open>
  C5. For a \<^verbatim>\<open>Cities\<close> collection holding \<^verbatim>\<open>['Paris', 'Berlin', 'Rome']\<close>, in any state:
  a first loop over the collection gives Paris, Berlin, Rome in this order; a second loop
  over the same collection gives the same three items again; and the iterator that the
  first loop created (at the first unused address) is exhausted, so that a loop over it,
  with or without the call of \<^verbatim>\<open>iter\<close>, gives no item.
\<close>

theorem traverse_twice_then_reuse_exhausted:
  assumes "heap_get s c = Some (Cities [''Paris'', ''Berlin'', ''Rome''])"
  shows "fst (for_loop c s) = Inr [StrV ''Paris'', StrV ''Berlin'', StrV ''Rome''] \<and>
    fst (for_loop c (snd (for_loop c s))) = Inr [StrV ''Paris'', StrV ''Berlin'', StrV ''Rome''] \<and>
    city_iterator_at (snd (for_loop c (snd (for_loop c s)))) (length (heap s)) c 3 \<and>
    fst (for_items (length (heap s)) (snd (for_loop c (snd (for_loop c s))))) = Inr [] \<and>
    fst (for_loop (length (heap s)) (snd (for_loop c (snd (for_loop c s))))) = Inr []"
proof -
  let ?cs = "[''Paris'', ''Berlin'', ''Rome'']"
  let ?p = "length (heap s)"
  let ?s1 = "snd (for_loop c s)"
  let ?s2 = "snd (for_loop c ?s1)"
  from assms have c0: "container_at s c = Some ?cs"
    by (simp add: container_at_def)
  have r1: "fst (for_loop c s) = Inr (map StrV ?cs)"
    by (rule for_loop_Cities(1) [OF c0])
  have it1: "city_iterator_at ?s1 ?p c (int (length ?cs))"
    by (rule for_loop_Cities(2) [OF c0])
  have c1: "container_at ?s1 c = Some ?cs"
    using for_loop_Cities(3) [OF c0] c0 by simp
  have r2: "fst (for_loop c ?s1) = Inr (map StrV ?cs)"
    by (rule for_loop_Cities(1) [OF c1])
  have c2: "container_at ?s2 c = Some ?cs"
    using for_loop_Cities(3) [OF c1] c1 by simp
  from it1 have "?p < length (heap ?s1)"
    by (auto simp: city_iterator_at_def dest: heap_get_SomeD)
  then have "heap_get ?s2 ?p = heap_get ?s1 ?p"
    by (rule for_loop_Cities(4) [OF c1])
  with it1 have it2: "city_iterator_at ?s2 ?p c (int (length ?cs))"
    by (simp add: city_iterator_at_def)
  have "int (length ?cs) \<le> int (length ?cs)"
    by simp
  from for_loop_exhausted [OF it2 c2 this] r1 r2 it2 show ?thesis
    by simp
qed

theorem traverse_twice_then_reuse_exhausted_witness:
  "heap_get \<lparr>heap = [Cities [''Paris'', ''Berlin'', ''Rome'']], stdout = []\<rparr> 0
     = Some (Cities [''Paris'', ''Berlin'', ''Rome'']) \<and>
   fst (for_loop 0 \<lparr>heap = [Cities [''Paris'', ''Berlin'', ''Rome'']], stdout = []\<rparr>)
     = Inr [StrV ''Paris'', StrV ''Berlin'', StrV ''Rome''] \<and>
   fst (for_loop 0 (snd (for_loop 0 \<lparr>heap = [Cities [''Paris'', ''Berlin'', ''Rome'']], stdout = []\<rparr>)))
     = Inr [StrV ''Paris'', StrV ''Berlin'', StrV ''Rome''] \<and>
   fst (for_loop 1 (snd (for_loop 0 (snd (for_loop 0
          \<lparr>heap = [Cities [''Paris'', ''Berlin'', ''Rome'']], stdout = []\<rparr>)))))
     = Inr []"
proof -
  let ?s = "\<lparr>heap = [Cities [''Paris'', ''Berlin'', ''Rome'']], stdout = []\<rparr>"
  have h: "heap_get ?s 0 = Some (Cities [''Paris'', ''Berlin'', ''Rome''])"
    by code_simp
  have l: "length (heap ?s) = 1"
    by simp
  from traverse_twice_then_reuse_exhausted [OF h] h show ?thesis
    unfolding l by blast
qed

section \<open>Positional access\<close>

lemma Cities_getitem_eq:
  "container_at s c = Some cs \<Longrightarrow>
   Cities_getitem c k s =
     (case list_getitem cs k of Inl e \<Rightarrow> Inl e | Inr item \<Rightarrow> Inr (StrV item),
      print ''getting item...'' s)"
  by (auto simp: Cities_getitem_def container_at_def Let_def
      split: option.splits pyobj.splits sum.splits)

text \<open>
  C6, as the claim states it, fails: it asks for a bounds error at every position below
  \<open>0\<close>, and \<^verbatim>\<open>cities[-1]\<close> on the collection of part-3 returns \<^verbatim>\<open>'Newcastle'\<close>, since
  \<^verbatim>\<open>__getitem__\<close> hands the position to the list, which counts a negative position from
  the end.
\<close>

theorem Cities_getitem_negative_counterexample:
  "fst (Cities_getitem 0 (- 1) (snd (Cities_init \<lparr>heap = [], stdout = []\<rparr>)))
     = Inr (StrV ''Newcastle'') \<and>
   fst (Cities_getitem 0 (- 1) (snd (Cities_init \<lparr>heap = [], stdout = []\<rparr>)))
     \<noteq> Inl IndexError"
  by code_simp

text \<open>
  C6, amended. For a \<^verbatim>\<open>Cities\<close> collection of length \<open>n\<close>, \<^verbatim>\<open>__getitem__\<close> raises
  \<^verbatim>\<open>IndexError\<close> exactly when the position is \<open>\<ge> n\<close> or \<open>< -n\<close>; for a position \<open>k\<close> with
  \<open>0 \<le> k < n\<close> it returns the element at \<open>k\<close>, and for \<open>-n \<le> k < 0\<close> the element at
  \<open>k + n\<close>. It never raises \<^verbatim>\<open>StopIteration\<close>, which is another exception than
  \<^verbatim>\<open>IndexError\<close>, and it leaves the store unchanged.
\<close>

theorem Cities_getitem_range:
  assumes "heap_get s c = Some (Cities cs)"
  shows "(fst (Cities_getitem c k s) = Inl IndexError
        \<longleftrightarrow> k \<ge> int (length cs) \<or> k < - int (length cs)) \<and>
    (0 \<le> k \<and> k < int (length cs)
        \<longrightarrow> fst (Cities_getitem c k s) = Inr (StrV (cs ! nat k))) \<and>
    (- int (length cs) \<le> k \<and> k < 0
        \<longrightarrow> fst (Cities_getitem c k s) = Inr (StrV (cs ! nat (k + int (length cs))))) \<and>
    fst (Cities_getitem c k s) \<noteq> Inl StopIteration \<and>
    IndexError \<noteq> StopIteration \<and>
    heap (snd (Cities_getitem c k s)) = heap s"
proof -
  from assms have "container_at s c = Some cs"
    by (simp add: container_at_def)
  then show ?thesis
    by (auto simp: Cities_getitem_eq list_getitem_def Let_def)
qed

theorem Cities_getitem_range_witness:
  "heap_get \<lparr>heap = [Cities [''Rome'', ''Oslo'']], stdout = []\<rparr> 0
     = Some (Cities [''Rome'', ''Oslo'']) \<and>
   fst (Cities_getitem 0 2 \<lparr>heap = [Cities [''Rome'', ''Oslo'']], stdout = []\<rparr>)
     = Inl IndexError \<and>
   fst (Cities_getitem 0 (- 3) \<lparr>heap = [Cities [''Rome'', ''Oslo'']], stdout = []\<rparr>)
     = Inl IndexError \<and>
   fst (Cities_getitem 0 1 \<lparr>heap = [Cities [''Rome'', ''Oslo'']], stdout = []\<rparr>)
     = Inr (StrV ''Oslo'') \<and>
   fst (Cities_getitem 0 (- 2) \<lparr>heap = [Cities [''Rome'', ''Oslo'']], stdout = []\<rparr>)
     = Inr (StrV ''Rome'')"
proof -
  let ?s = "\<lparr>heap = [Cities [''Rome'', ''Oslo'']], stdout = []\<rparr>"
  have h: "heap_get ?s 0 = Some (Cities [''Rome'', ''Oslo''])"
    by code_simp
  from Cities_getitem_range [OF h, of 2] Cities_getitem_range [OF h, of "- 3"]
    Cities_getitem_range [OF h, of 1] Cities_getitem_range [OF h, of "- 2"] h
  show ?thesis
    by simp
qed

section \<open>Which of the two the traversal uses\<close>

lemma list_getitem_length: "list_getitem xs (int (length xs)) = Inl IndexError"
  by (simp add: list_getitem_def)

lemma at_items_Cities:
  "container_at s c = Some cs \<Longrightarrow> i \<le> length cs \<Longrightarrow> n = length cs - i \<Longrightarrow>
   at_items (Cities_getitem c) (int i) s =
     Some (Inr (map StrV (drop i cs)),
           s\<lparr>stdout := stdout s @ replicate (Suc n) ''getting item...''\<rparr>)"
proof (induction n arbitrary: i s)
  case 0
  then have "i = length cs" by simp
  with 0 show ?case
    by (subst at_items.simps)
       (simp add: Cities_getitem_eq list_getitem_length print_def)
next
  case (Suc n)
  then have lt: "i < length cs" by simp
  let ?s1 = "print ''getting item...'' s"
  have c: "container_at ?s1 c = Some cs"
    using Suc.prems(1) by simp
  from Suc.prems lt have "Suc i \<le> length cs" "n = length cs - Suc i"
    by simp_all
  from Suc.IH [OF c this]
  have ih: "at_items (Cities_getitem c) (int i + 1) (s\<lparr>stdout := stdout s @ [''getting item...'']\<rparr>) =
     Some (Inr (map StrV (drop (Suc i) cs)),
           s\<lparr>stdout := stdout s @ replicate (Suc (Suc n)) ''getting item...''\<rparr>)"
    by (simp add: add.commute print_def)
  have d: "drop i cs = cs ! i # drop (Suc i) cs"
    using lt by (simp add: Cons_nth_drop_Suc)
  show ?case
    by (subst at_items.simps)
       (simp add: Cities_getitem_eq [OF Suc.prems(1)] list_getitem_nat [OF lt] ih d print_def)
qed

lemma traced_for_items_stdout:
  "heap_get s p = Some (Cities_CityIterator c (int i)) \<Longrightarrow> container_at s c = Some cs \<Longrightarrow>
   i \<le> length cs \<Longrightarrow> n = length cs - i \<Longrightarrow>
   stdout (snd (for_items p s)) = stdout s @ replicate (Suc n) ''Calling __next__''"
proof (induction n arbitrary: i s)
  case 0
  then have "city_iterator_at s p c (int i)" "int (length cs) \<le> int i"
    by (simp_all add: city_iterator_at_def)
  from city_iterator_stop [OF this(1) 0(2) this(2)] 0(1) show ?case
    by (subst snd_for_items) (simp add: py_next_stdout traced_def)
next
  case (Suc n)
  then have lt: "i < length cs" by simp
  let ?s1 = "snd (py_next p s)"
  from Suc.prems(1) have it: "city_iterator_at s p c (int i)"
    by (simp add: city_iterator_at_def)
  from city_iterator_step(1) [OF it Suc.prems(2) lt]
  have v: "fst (py_next p s) = Inr (StrV (cs ! i))" .
  then have h: "heap_get ?s1 p = Some (Cities_CityIterator c (int (Suc i)))"
    using Suc.prems(1) by (simp add: py_next_at_self add.commute)
  have c: "container_at ?s1 c = Some cs"
    using Suc.prems(2) by (simp add: py_next_container)
  from Suc.prems lt have "Suc i \<le> length cs" "n = length cs - Suc i"
    by simp_all
  from Suc.IH [OF h c this]
  have "stdout (snd (for_items p ?s1)) = stdout ?s1 @ replicate (Suc n) ''Calling __next__''" .
  with v Suc.prems(1) show ?case
    by (subst snd_for_items) (simp add: py_next_stdout traced_def)
qed

text \<open>
  C7. For every \<^verbatim>\<open>Cities\<close> collection, which has both \<^verbatim>\<open>__iter__\<close> and
  \<^verbatim>\<open>__getitem__\<close>, in every state: the traversal given both returns the elements in the
  order of the list and prints the trace of one \<^verbatim>\<open>__iter__\<close>, one creation of an
  iterator and \<open>n + 1\<close> calls of \<^verbatim>\<open>__next__\<close>, and no line of \<^verbatim>\<open>__getitem__\<close>: the
  accessor is not called. The traversal given the accessor only returns the same elements
  in the same order, by \<open>n + 1\<close> calls of \<^verbatim>\<open>__getitem__\<close> (the positions \<open>0\<close> to \<open>n\<close>,
  the last one raising the bounds error that ends it), and changes no object.
\<close>

theorem traversal_prefers_iter_over_getitem:
  assumes "heap_get s c = Some (Cities cs)"
  shows "(\<exists>s1. generic_traversal (Some (Cities_iter c)) (Some (Cities_getitem c)) s
              = Some (Inr (map StrV cs), s1) \<and>
            stdout s1 = stdout s
              @ [''Calling Cities instance __iter__'', ''Calling CityIterator __init__'']
              @ replicate (length cs + 1) ''Calling __next__'') \<and>
    (\<exists>s2. generic_traversal None (Some (Cities_getitem c)) s = Some (Inr (map StrV cs), s2) \<and>
            heap s2 = heap s \<and>
            stdout s2 = stdout s @ replicate (length cs + 1) ''getting item...'')"
proof -
  from assms have c: "container_at s c = Some cs"
    by (simp add: container_at_def)
  let ?p = "length (heap s)" and ?s1 = "snd (Cities_iter c s)"
  have e: "generic_traversal (Some (Cities_iter c)) (Some (Cities_getitem c)) s
      = Some (for_items ?p ?s1)"
    using Cities_iter_facts(1) [OF c]
    by (auto simp: generic_traversal_def split: prod.splits sum.splits)
  have it: "city_iterator_at ?s1 ?p c (int 0)" and c1: "container_at ?s1 c = Some cs"
    using Cities_iter_new [OF c] c by simp_all
  have h: "heap_get ?s1 ?p = Some (Cities_CityIterator c (int 0))"
    using heap_get_append [OF Cities_iter_facts(2) [OF c], of ?p] by simp
  have r: "fst (for_items ?p ?s1) = Inr (map StrV cs)"
    using city_iterator_for_items [OF it c1, of "length cs"] by simp
  have o: "stdout (snd (for_items ?p ?s1)) = stdout s
      @ [''Calling Cities instance __iter__'', ''Calling CityIterator __init__'']
      @ replicate (length cs + 1) ''Calling __next__''"
    using traced_for_items_stdout [OF h c1, of "length cs"] Cities_iter_facts(3) [OF c]
    by simp
  have first: "\<exists>s1. generic_traversal (Some (Cities_iter c)) (Some (Cities_getitem c)) s
              = Some (Inr (map StrV cs), s1) \<and>
            stdout s1 = stdout s
              @ [''Calling Cities instance __iter__'', ''Calling CityIterator __init__'']
              @ replicate (length cs + 1) ''Calling __next__''"
    using r o by (intro exI [of _ "snd (for_items ?p ?s1)"]) (simp add: e prod_eq_iff)
  have "generic_traversal None (Some (Cities_getitem c)) s
      = Some (Inr (map StrV cs),
              s\<lparr>stdout := stdout s @ replicate (length cs + 1) ''getting item...''\<rparr>)"
    using at_items_Cities [OF c, of 0 "length cs"] by (simp add: generic_traversal_def)
  then have second: "\<exists>s2. generic_traversal None (Some (Cities_getitem c)) s
        = Some (Inr (map StrV cs), s2) \<and>
      heap s2 = heap s \<and>
      stdout s2 = stdout s @ replicate (length cs + 1) ''getting item...''"
    by simp
  from first second show ?thesis
    by blast
qed

theorem traversal_prefers_iter_over_getitem_witness:
  "heap_get (snd (Cities_init \<lparr>heap = [], stdout = []\<rparr>)) 0
     = Some (Cities [''New York'', ''Newark'', ''New Delhi'', ''Newcastle'']) \<and>
   (\<exists>s1. generic_traversal (Some (Cities_iter 0)) (Some (Cities_getitem 0))
            (snd (Cities_init \<lparr>heap = [], stdout = []\<rparr>))
          = Some (Inr [StrV ''New York'', StrV ''Newark'', StrV ''New Delhi'', StrV ''Newcastle''], s1) \<and>
        stdout s1 = [''Calling Cities instance __iter__'', ''Calling CityIterator __init__'',
          ''Calling __next__'', ''Calling __next__'', ''Calling __next__'', ''Calling __next__'',
          ''Calling __next__'']) \<and>
   (\<exists>s2. generic_traversal None (Some (Cities_getitem 0))
            (snd (Cities_init \<lparr>heap = [], stdout = []\<rparr>))
          = Some (Inr [StrV ''New York'', StrV ''Newark'', StrV ''New Delhi'', StrV ''Newcastle''], s2) \<and>
        stdout s2 = [''getting item...'', ''getting item...'', ''getting item...'',
          ''getting item...'', ''getting item...''])"
proof -
  let ?s = "snd (Cities_init \<lparr>heap = [], stdout = []\<rparr>)"
  have h: "heap_get ?s 0 = Some (Cities [''New York'', ''Newark'', ''New Delhi'', ''Newcastle''])"
    by code_simp
  have o: "stdout ?s = []"
    by code_simp
  from traversal_prefers_iter_over_getitem [OF h] h show ?thesis
    unfolding o by (simp add: numeral_eq_Suc) blast
qed

section \<open>The unbounded Squares never stops\<close>

lemma Squares0_next_run:
  "heap_get s a = Some (Squares0 i) \<Longrightarrow>
   fst (call_n Squares0_next n a s) = map (\<lambda>j. Inr (IntV ((i + int j) ^ 2))) [0..<n]"
proof (induction n arbitrary: s i)
  case 0
  then show ?case by simp
next
  case (Suc n)
  let ?s1 = "heap_set a (Squares0 (i + 1)) s"
  from Suc.prems have "heap_get ?s1 a = Some (Squares0 (i + 1))"
    by simp
  then have ih: "fst (call_n Squares0_next n a ?s1)
      = map (\<lambda>j. Inr (IntV ((i + 1 + int j) ^ 2))) [0..<n]"
    by (rule Suc.IH)
  have step: "Squares0_next a s = (Inr (IntV (i ^ 2)), ?s1)"
    using Suc.prems by (simp add: Squares0_next_def)
  have "[0..<Suc n] = 0 # map Suc [0..<n]"
    by (simp only: map_Suc_upt upt_conv_Cons [OF zero_less_Suc])
  then have unfold: "map (\<lambda>j. Inr (IntV ((i + int j) ^ 2))) [0..<Suc n]
      = Inr (IntV (i ^ 2)) # map (\<lambda>j. Inr (IntV ((i + 1 + int j) ^ 2))) [0..<n]"
    by (simp add: comp_def ac_simps del: upt_Suc)
  have "fst (call_n Squares0_next (Suc n) a s)
      = Inr (IntV (i ^ 2)) # fst (call_n Squares0_next n a ?s1)"
    by (simp add: step split: prod.splits)
  also have "\<dots> = Inr (IntV (i ^ 2)) # map (\<lambda>j. Inr (IntV ((i + 1 + int j) ^ 2))) [0..<n]"
    by (simp only: ih)
  finally show ?case
    by (simp only: unfold)
qed

text \<open>
  C10. On a fresh instance of the unbounded \<^verbatim>\<open>Squares\<close>, the first \<open>n\<close> calls of
  \<^verbatim>\<open>next_\<close> all return a value, none raises, and the values are \<open>0\<^sup>2, 1\<^sup>2, \<dots>, (n-1)\<^sup>2\<close>
  in this order: the \<open>k\<close>-th call returns \<open>(k-1)\<^sup>2\<close>, for every \<open>k\<close> and every state in which
  the instance is created.
\<close>

theorem Squares0_next_squares:
  "fst (call_n Squares0_next n (fst (Squares0_init s)) (snd (Squares0_init s)))
     = map (\<lambda>j. Inr (IntV ((int j) ^ 2))) [0..<n]"
proof -
  have "heap_get (snd (Squares0_init s)) (fst (Squares0_init s)) = Some (Squares0 0)"
    by (simp add: Squares0_init_def heap_get_alloc)
  from Squares0_next_run [OF this, of n] show ?thesis by simp
qed

theorem Squares0_next_squares_witness:
  "fst (call_n Squares0_next 4 (fst (Squares0_init \<lparr>heap = [], stdout = []\<rparr>))
          (snd (Squares0_init \<lparr>heap = [], stdout = []\<rparr>)))
     = [Inr (IntV 0), Inr (IntV 1), Inr (IntV 4), Inr (IntV 9)]"
  using Squares0_next_squares [of 4 "\<lparr>heap = [], stdout = []\<rparr>"]
  by (simp add: numeral_eq_Suc)

end
